theory Spec2Isabelle
  imports Main
begin

section \<open>Quality gate runner\<close>

text \<open>
  \<^verbatim>\<open>runQualityChecks\<close> runs the four verification commands in order through
  \<^verbatim>\<open>execAsync\<close>.  The outcome of a command is supplied by the environment: either
  the promise resolves with the captured streams, or it rejects with an error object
  that may carry \<^verbatim>\<open>stdout\<close>, \<^verbatim>\<open>stderr\<close> and \<^verbatim>\<open>message\<close>.
  Durations (\<^verbatim>\<open>Date.now()\<close> differences) are not modelled.
\<close>

datatype gate_status = Pass | Fail | Skipped

record QualityGateResult =
  check_name :: string
  check_status :: gate_status
  check_output :: "string option"

datatype exec_outcome =
  Resolved string string
| Rejected "string option" "string option" "string option"

record QualityCheckOutcome =
  passed :: bool
  results :: "QualityGateResult list"

definition verificationChecks :: "(string \<times> string) list" where
  "verificationChecks =
     [(''npm run lint'', ''Lint''),
      (''npm run typecheck'', ''Type check''),
      (''npm test'', ''Tests''),
      (''npm run build'', ''Build'')]"

text \<open>\<^verbatim>\<open>value.length > 4000 ? value.slice(-4000) : value\<close>\<close>

definition clampOutput :: "string \<Rightarrow> string" where
  "clampOutput v = (if length v > 4000 then drop (length v - 4000) v else v)"

text \<open>JavaScript's \<^verbatim>\<open>a || b\<close> on strings: the empty string is falsy.\<close>

definition str_or :: "string \<Rightarrow> string \<Rightarrow> string" where
  "str_or a b = (if a = [] then b else a)"

definition opt_str_or :: "string option \<Rightarrow> string \<Rightarrow> string" where
  "opt_str_or a b = (case a of None \<Rightarrow> b | Some s \<Rightarrow> str_or s b)"

definition pass_result :: "string \<Rightarrow> string \<Rightarrow> string \<Rightarrow> QualityGateResult" where
  "pass_result nm out err =
     \<lparr>check_name = nm, check_status = Pass,
      check_output = (if str_or out err = [] then None else Some (clampOutput (str_or out err)))\<rparr>"

definition fail_result ::
  "string \<Rightarrow> string option \<Rightarrow> string option \<Rightarrow> string option \<Rightarrow> QualityGateResult" where
  "fail_result nm out err msg =
     \<lparr>check_name = nm, check_status = Fail,
      check_output = Some (clampOutput
        (opt_str_or out (opt_str_or err (opt_str_or msg ''Unknown error''))))\<rparr>"

definition skipped_result :: "string \<Rightarrow> QualityGateResult" where
  "skipped_result nm = \<lparr>check_name = nm, check_status = Skipped, check_output = None\<rparr>"

text \<open>
  The \<^verbatim>\<open>for\<close> loop over \<^verbatim>\<open>verificationChecks\<close>.  The accumulator carries
  \<^verbatim>\<open>results\<close> and the list of commands handed to \<^verbatim>\<open>execAsync\<close> so far; the
  \<^verbatim>\<open>catch\<close> branch pushes the failure, pushes a skipped entry for every remaining
  check and breaks.
\<close>

fun check_loop ::
  "(string \<Rightarrow> exec_outcome) \<Rightarrow> (string \<times> string) list \<Rightarrow>
   QualityGateResult list \<Rightarrow> string list \<Rightarrow> bool \<times> QualityGateResult list \<times> string list" where
  "check_loop exec [] res cmds = (True, res, cmds)"
| "check_loop exec ((cmd, nm) # rest) res cmds =
     (case exec cmd of
        Resolved out err \<Rightarrow> check_loop exec rest (res @ [pass_result nm out err]) (cmds @ [cmd])
      | Rejected out err msg \<Rightarrow>
          (False,
           (res @ [fail_result nm out err msg]) @ map (\<lambda>(c, n). skipped_result n) rest,
           cmds @ [cmd]))"

definition runQualityChecks :: "(string \<Rightarrow> exec_outcome) \<Rightarrow> QualityCheckOutcome \<times> string list" where
  "runQualityChecks exec =
     (case check_loop exec verificationChecks [] [] of
        (allPassed, res, cmds) \<Rightarrow> (\<lparr>passed = allPassed, results = res\<rparr>, cmds))"


definition succeeds :: "(string \<Rightarrow> exec_outcome) \<Rightarrow> string \<Rightarrow> bool" where
  "succeeds exec cmd = (case exec cmd of Resolved out err \<Rightarrow> True | Rejected out err msg \<Rightarrow> False)"

section \<open>Properties of the quality gate\<close>

lemma check_loop_names:
  "map check_name (fst (snd (check_loop exec cs res cmds))) = map check_name res @ map snd cs"
  by (induction cs arbitrary: res cmds)
     (auto simp: pass_result_def fail_result_def skipped_result_def split: exec_outcome.splits)

lemma check_loop_statuses:
  "map check_status (fst (snd (check_loop exec cs res cmds))) =
     map check_status res @
     (let n = length (takeWhile (succeeds exec) (map fst cs))
      in replicate n Pass @
         (if n < length cs then Fail # replicate (length cs - Suc n) Skipped else []))"
proof (induction cs arbitrary: res cmds)
  case Nil
  show ?case by simp
next
  case (Cons c cs)
  obtain cmd nm where c: "c = (cmd, nm)" by (cases c)
  show ?case
  proof (cases "exec cmd")
    case (Resolved out err)
    then show ?thesis
      using Cons.IH [of "res @ [pass_result nm out err]" "cmds @ [cmd]"]
      by (simp add: c succeeds_def pass_result_def Let_def)
  next
    case (Rejected out err msg)
    then show ?thesis
      by (simp add: c succeeds_def fail_result_def skipped_result_def comp_def case_prod_unfold
                    map_replicate_const)
  qed
qed

lemma check_loop_cmds:
  "snd (snd (check_loop exec cs res cmds)) =
     cmds @ take (Suc (length (takeWhile (succeeds exec) (map fst cs)))) (map fst cs)"
proof (induction cs arbitrary: res cmds)
  case Nil
  show ?case by simp
next
  case (Cons c cs)
  obtain cmd nm where c: "c = (cmd, nm)" by (cases c)
  show ?case
  proof (cases "exec cmd")
    case (Resolved out err)
    then show ?thesis
      using Cons.IH [of "res @ [pass_result nm out err]" "cmds @ [cmd]"]
      by (simp add: c succeeds_def)
  next
    case (Rejected out err msg)
    then show ?thesis by (simp add: c succeeds_def)
  qed
qed

lemma check_loop_passed:
  "fst (check_loop exec cs res cmds) = (\<forall>c \<in> set (map fst cs). succeeds exec c)"
proof (induction cs arbitrary: res cmds)
  case Nil
  show ?case by simp
next
  case (Cons c cs)
  obtain cmd nm where c: "c = (cmd, nm)" by (cases c)
  show ?case
  proof (cases "exec cmd")
    case (Resolved out err)
    then show ?thesis
      using Cons.IH [of "res @ [pass_result nm out err]" "cmds @ [cmd]"]
      by (simp add: c succeeds_def)
  next
    case (Rejected out err msg)
    then show ?thesis by (simp add: c succeeds_def)
  qed
qed


text \<open>
  Claim C4.  Whatever the four commands do, the gate reports the checks Lint, Type check,
  Tests, Build in that order; with \<open>n\<close> the number of leading commands that succeed,
  exactly the first \<open>n + 1\<close> commands are executed (all four when none fails), the
  first \<open>n\<close> checks are recorded as pass, the next one as fail and every later one as
  skipped; \<^verbatim>\<open>passed\<close> is true exactly when every recorded check is a pass.  In
  particular, when lint succeeds and typecheck fails, the statuses are pass, fail,
  skipped, skipped, only lint and typecheck were run, and \<^verbatim>\<open>passed\<close> is false.
\<close>

theorem runQualityChecks_short_circuit:
  "(let out = fst (runQualityChecks exec);
        executed = snd (runQualityChecks exec);
        n = length (takeWhile (succeeds exec) (map fst verificationChecks))
    in map check_name (results out) = [''Lint'', ''Type check'', ''Tests'', ''Build''] \<and>
       map check_status (results out) =
         replicate n Pass @ (if n < 4 then Fail # replicate (3 - n) Skipped else []) \<and>
       executed = take (Suc n) (map fst verificationChecks) \<and>
       (passed out \<longleftrightarrow> (\<forall>r \<in> set (results out). check_status r = Pass)) \<and>
       (passed out \<longleftrightarrow> (\<forall>c \<in> set (map fst verificationChecks). succeeds exec c)) \<and>
       (succeeds exec ''npm run lint'' \<and> \<not> succeeds exec ''npm run typecheck'' \<longrightarrow>
          map check_status (results out) = [Pass, Fail, Skipped, Skipped] \<and>
          executed = [''npm run lint'', ''npm run typecheck''] \<and>
          \<not> passed out))"
proof -
  define n where "n = length (takeWhile (succeeds exec) (map fst verificationChecks))"
  obtain ok res executed where loop: "check_loop exec verificationChecks [] [] = (ok, res, executed)"
    by (cases "check_loop exec verificationChecks [] []") auto
  have run: "runQualityChecks exec = (\<lparr>passed = ok, results = res\<rparr>, executed)"
    by (simp add: runQualityChecks_def loop)
  have len: "length verificationChecks = 4"
    by (simp add: verificationChecks_def)
  have "map check_name res = map snd verificationChecks"
    using check_loop_names [of exec verificationChecks "[]" "[]"]
    by (simp add: loop)
  then have names: "map check_name res = [''Lint'', ''Type check'', ''Tests'', ''Build'']"
    by (simp add: verificationChecks_def)
  have stats: "map check_status res =
      replicate n Pass @ (if n < 4 then Fail # replicate (3 - n) Skipped else [])"
    using check_loop_statuses [of exec verificationChecks "[]" "[]"]
    by (simp add: loop len n_def Let_def)
  have ran: "executed = take (Suc n) (map fst verificationChecks)"
    using check_loop_cmds [of exec verificationChecks "[]" "[]"]
    by (simp add: loop n_def)
  have ok: "ok = (\<forall>c \<in> set (map fst verificationChecks). succeeds exec c)"
    using check_loop_passed [of exec verificationChecks "[]" "[]"]
    by (simp add: loop)
  have n_le: "n \<le> 4"
    using length_takeWhile_le [of "succeeds exec" "map fst verificationChecks"]
    by (simp add: n_def len)
  have n4: "n = 4 \<longleftrightarrow> (\<forall>c \<in> set (map fst verificationChecks). succeeds exec c)"
  proof
    assume "n = 4"
    then have "takeWhile (succeeds exec) (map fst verificationChecks) = map fst verificationChecks"
      by (metis n_def len length_map takeWhile_eq_take take_all order_refl)
    then show "\<forall>c \<in> set (map fst verificationChecks). succeeds exec c"
      by (metis set_takeWhileD)
  next
    assume "\<forall>c \<in> set (map fst verificationChecks). succeeds exec c"
    then have eq: "takeWhile (succeeds exec) (map fst verificationChecks) = map fst verificationChecks"
      unfolding takeWhile_eq_all_conv by blast
    have "n = length (map fst verificationChecks)"
      unfolding n_def eq by (rule refl)
    then show "n = 4" by (simp add: len)
  qed
  have all_pass: "ok = (\<forall>r \<in> set res. check_status r = Pass)"
  proof -
    have "(\<forall>r \<in> set res. check_status r = Pass) = (\<forall>s \<in> set (map check_status res). s = Pass)"
      by auto
    also have "\<dots> = (n = 4)"
      using n_le by (auto simp: stats)
    finally show ?thesis using ok n4 by simp
  qed
  have example: "map check_status res = [Pass, Fail, Skipped, Skipped] \<and>
      executed = [''npm run lint'', ''npm run typecheck''] \<and> \<not> ok"
    if "succeeds exec ''npm run lint''" "\<not> succeeds exec ''npm run typecheck''"
  proof -
    have "n = 1" using that by (simp add: n_def verificationChecks_def)
    then show ?thesis
      using that by (simp add: stats ran ok verificationChecks_def numeral_2_eq_2)
  qed
  show ?thesis
    unfolding Let_def run n_def [symmetric]
    using names stats ran ok all_pass example by simp
qed

definition lint_ok_typecheck_fails :: "string \<Rightarrow> exec_outcome" where
  "lint_ok_typecheck_fails cmd =
     (if cmd = ''npm run lint'' then Resolved ''no problems'' []
      else if cmd = ''npm run typecheck'' then Rejected None (Some ''error TS2322'') None
      else Resolved ''ok'' [])"

theorem runQualityChecks_short_circuit_witness:
  "succeeds lint_ok_typecheck_fails ''npm run lint'' \<and>
   \<not> succeeds lint_ok_typecheck_fails ''npm run typecheck'' \<and>
   map check_status (results (fst (runQualityChecks lint_ok_typecheck_fails))) =
     [Pass, Fail, Skipped, Skipped] \<and>
   snd (runQualityChecks lint_ok_typecheck_fails) = [''npm run lint'', ''npm run typecheck''] \<and>
   \<not> passed (fst (runQualityChecks lint_ok_typecheck_fails)) \<and>
   (\<exists>r \<in> set (results (fst (runQualityChecks lint_ok_typecheck_fails))). check_status r \<noteq> Pass)"
proof -
  have a: "succeeds lint_ok_typecheck_fails ''npm run lint''"
    by (simp add: succeeds_def lint_ok_typecheck_fails_def)
  have b: "\<not> succeeds lint_ok_typecheck_fails ''npm run typecheck''"
    by (simp add: succeeds_def lint_ok_typecheck_fails_def)
  note gate = runQualityChecks_short_circuit [of lint_ok_typecheck_fails, unfolded Let_def]
  from gate a b
  have c: "map check_status (results (fst (runQualityChecks lint_ok_typecheck_fails))) =
             [Pass, Fail, Skipped, Skipped]"
    and d: "snd (runQualityChecks lint_ok_typecheck_fails) =
             [''npm run lint'', ''npm run typecheck'']"
    and e: "\<not> passed (fst (runQualityChecks lint_ok_typecheck_fails))"
    by blast+
  from gate e
  have f: "\<exists>r \<in> set (results (fst (runQualityChecks lint_ok_typecheck_fails))).
             check_status r \<noteq> Pass"
    by blast
  from a b c d e f show ?thesis by blast
qed


section \<open>Data model of the auto mode service\<close>

datatype PlanTaskComplexity = Low | Medium | High

datatype PlanTaskStatus = TaskPending | TaskInProgress | TaskCompleted | TaskBlocked | TaskFailed

text \<open>\<^verbatim>\<open>ParsedTask\<close>: optional fields of the source are options here.\<close>

record ParsedTask =
  task_id :: string
  description :: string
  filePath :: "string option"
  phase :: "string option"
  dependsOn :: "string list option"
  complexity :: "PlanTaskComplexity option"
  task_status :: PlanTaskStatus

datatype PlanStatus = PlanPending | PlanGenerating | PlanGenerated | PlanApproved | PlanRejected

record PlanSpec =
  plan_status :: PlanStatus
  content :: "string option"
  version :: int
  approvedAt :: "string option"
  reviewedByUser :: bool
  tasksCompleted :: "nat option"
  tasksTotal :: "nat option"
  currentTaskId :: "string option"
  currentTaskIds :: "string list option"
  tasks :: "ParsedTask list option"
  taskStateVersion :: "int option"

text \<open>The fields of \<^verbatim>\<open>feature.json\<close> that the orchestrator reads or writes.\<close>

record Feature =
  feature_id :: string
  feature_status :: string
  skipTests :: bool
  planSpec :: "PlanSpec option"

record RunningFeature =
  rf_featureId :: string
  rf_projectPath :: string
  rf_worktreePath :: "string option"
  rf_branchName :: "string option"
  rf_abortController :: nat
  rf_isAutoMode :: bool
  rf_startTime :: int

record PendingApproval =
  pa_promise :: nat
  pa_featureId :: string
  pa_projectPath :: string

record failure_entry =
  timestamp :: int
  error :: string

text \<open>The result of \<^verbatim>\<open>classifyError\<close>, as far as the service looks at it.\<close>

record errorInfo =
  err_type :: string
  err_message :: string
  isAbort :: bool

record ExecutionState =
  autoLoopWasRunning :: bool
  es_maxConcurrency :: nat
  runningFeatureIds :: "string list"

record approval_result =
  approved :: bool
  editedPlan :: "string option"
  feedback :: "string option"

datatype promise_state =
  Unsettled
| Fulfilled approval_result
| RejectedWith string

text \<open>
  Events sent through \<^verbatim>\<open>emitAutoModeEvent\<close>: the event type with the payload fields
  that matter here.
\<close>

datatype event =
  auto_mode_started
| auto_mode_stopped
| auto_mode_paused_failures string string nat
| auto_mode_feature_start string
| auto_mode_feature_complete string bool
| auto_mode_error string string string
| plan_rejected string "string option"

text \<open>
  The mutable state: the private fields of \<^verbatim>\<open>AutoModeService\<close>, the objects they
  refer to (abort controllers, approval promises and their timers, each named by a
  number), the events emitted so far, and the files the service reads and writes.
  The two \<^verbatim>\<open>Map\<close>s are association lists in insertion order.
\<close>

record world =
  runningFeatures :: "(string \<times> RunningFeature) list"
  autoLoopRunning :: bool
  autoLoopAbortController :: "nat option"
  config_projectPath :: "string option"
  config_maxConcurrency :: nat
  pendingApprovals :: "(string \<times> PendingApproval) list"
  consecutiveFailures :: "failure_entry list"
  pausedDueToFailures :: bool
  aborted :: "nat list"
  promises :: "nat \<Rightarrow> promise_state"
  timers :: "nat list"
  nextId :: nat
  emitted :: "event list"
  featureFiles :: "string \<times> string \<Rightarrow> Feature option"
  contextFiles :: "string \<times> string \<Rightarrow> bool"
  executionStateFile :: "string \<Rightarrow> ExecutionState option"

definition emitAutoModeEvent :: "event \<Rightarrow> world \<Rightarrow> world" where
  "emitAutoModeEvent ev w = w\<lparr>emitted := emitted w @ [ev]\<rparr>"

subsection \<open>JavaScript \<^verbatim>\<open>Map\<close> on association lists\<close>

definition map_has :: "('k \<times> 'v) list \<Rightarrow> 'k \<Rightarrow> bool" where
  "map_has m k = (k \<in> set (map fst m))"

definition map_get :: "('k \<times> 'v) list \<Rightarrow> 'k \<Rightarrow> 'v option" where
  "map_get m k = map_of m k"

text \<open>\<^verbatim>\<open>set\<close> replaces the value of a present key in place and appends a new key.\<close>

fun map_set :: "('k \<times> 'v) list \<Rightarrow> 'k \<Rightarrow> 'v \<Rightarrow> ('k \<times> 'v) list" where
  "map_set [] k v = [(k, v)]"
| "map_set ((k', v') # m) k v = (if k' = k then (k, v) # m else (k', v') # map_set m k v)"

definition map_delete :: "('k \<times> 'v) list \<Rightarrow> 'k \<Rightarrow> ('k \<times> 'v) list" where
  "map_delete m k = filter (\<lambda>kv. fst kv \<noteq> k) m"

section \<open>Failure circuit breaker\<close>

definition CONSECUTIVE_FAILURE_THRESHOLD :: nat where
  "CONSECUTIVE_FAILURE_THRESHOLD = 3"

definition FAILURE_WINDOW_MS :: int where
  "FAILURE_WINDOW_MS = 60000"

text \<open>\<^verbatim>\<open>trackFailureAndCheckPause\<close>; \<open>now\<close> is the value of \<^verbatim>\<open>Date.now()\<close>.\<close>

definition trackFailureAndCheckPause :: "int \<Rightarrow> errorInfo \<Rightarrow> world \<Rightarrow> bool \<times> world" where
  "trackFailureAndCheckPause now e w =
     (let pushed = consecutiveFailures w @ [\<lparr>timestamp = now, error = err_message e\<rparr>];
          kept = filter (\<lambda>f. now - timestamp f < FAILURE_WINDOW_MS) pushed;
          w' = w\<lparr>consecutiveFailures := kept\<rparr>
      in if length kept \<ge> CONSECUTIVE_FAILURE_THRESHOLD then (True, w')
         else if err_type e = ''quota_exhausted'' \<or> err_type e = ''rate_limit'' then (True, w')
         else (False, w'))"

text \<open>
  \<^verbatim>\<open>clearExecutionState\<close> unlinks the state file; a missing file is not an error.
\<close>

definition clearExecutionState :: "string \<Rightarrow> world \<Rightarrow> world" where
  "clearExecutionState projectPath w =
     w\<lparr>executionStateFile := (executionStateFile w)(projectPath := None)\<rparr>"

text \<open>
  \<^verbatim>\<open>stopAutoLoop\<close>: the flag is cleared and the loop's controller aborted at once; the
  state file is cleared and the stop event emitted in the continuation.  The result is
  \<^verbatim>\<open>runningFeatures.size\<close>.
\<close>

definition stopAutoLoop :: "world \<Rightarrow> nat \<times> world" where
  "stopAutoLoop w =
     (let wasRunning = autoLoopRunning w;
          projectPath = config_projectPath w;
          w1 = w\<lparr>autoLoopRunning := False\<rparr>;
          w2 = (case autoLoopAbortController w1 of
                  None \<Rightarrow> w1
                | Some c \<Rightarrow> w1\<lparr>aborted := aborted w1 @ [c], autoLoopAbortController := None\<rparr>);
          w3 = (case projectPath of
                  None \<Rightarrow> w2
                | Some p \<Rightarrow> if p = [] then w2 else clearExecutionState p w2);
          w4 = (if wasRunning then emitAutoModeEvent auto_mode_stopped w3 else w3)
      in (length (runningFeatures w4), w4))"

definition signalShouldPause :: "errorInfo \<Rightarrow> world \<Rightarrow> world" where
  "signalShouldPause e w =
     (if pausedDueToFailures w then w
      else let w1 = w\<lparr>pausedDueToFailures := True\<rparr>;
               failureCount = length (consecutiveFailures w1);
               w2 = emitAutoModeEvent
                      (auto_mode_paused_failures (err_type e) (err_message e) failureCount) w1
           in snd (stopAutoLoop w2))"

definition resetFailureTracking :: "world \<Rightarrow> world" where
  "resetFailureTracking w = w\<lparr>consecutiveFailures := [], pausedDueToFailures := False\<rparr>"

definition recordSuccess :: "world \<Rightarrow> world" where
  "recordSuccess w = w\<lparr>consecutiveFailures := []\<rparr>"

text \<open>
  The pattern at every failure site of the service (\<^verbatim>\<open>executeFeature\<close>,
  \<^verbatim>\<open>followUpFeature\<close>):
  \<^verbatim>\<open>const shouldPause = this.trackFailureAndCheckPause(info);
  if (shouldPause) { this.signalShouldPause(info); }\<close>
\<close>

definition trackAndSignal :: "int \<Rightarrow> errorInfo \<Rightarrow> world \<Rightarrow> world" where
  "trackAndSignal now e w =
     (case trackFailureAndCheckPause now e w of
        (shouldPause, w') \<Rightarrow> if shouldPause then signalShouldPause e w' else w')"





text \<open>
  The synchronous prefix of \<^verbatim>\<open>startAutoLoop\<close> (up to the first \<^verbatim>\<open>await\<close>): it refuses
  to start twice, resets the failure tracking, and creates the loop's controller.
\<close>

definition startAutoLoop :: "string \<Rightarrow> nat \<Rightarrow> world \<Rightarrow> string + world" where
  "startAutoLoop projectPath maxConcurrency w =
     (if autoLoopRunning w then Inl ''Auto mode is already running''
      else let w1 = resetFailureTracking w;
               w2 = w1\<lparr>autoLoopRunning := True,
                        autoLoopAbortController := Some (nextId w1),
                        nextId := Suc (nextId w1),
                        config_projectPath := Some projectPath,
                        config_maxConcurrency := maxConcurrency\<rparr>
           in Inr (emitAutoModeEvent auto_mode_started w2))"

text \<open>While the loop runs, the breaker is not in its paused state.\<close>

definition breaker_inv :: "world \<Rightarrow> bool" where
  "breaker_inv w = (\<not> (autoLoopRunning w \<and> pausedDueToFailures w))"












lemma breaker_inv_start: "startAutoLoop p m w = Inr w' \<Longrightarrow> breaker_inv w'"
  by (auto simp: startAutoLoop_def breaker_inv_def resetFailureTracking_def Let_def
      emitAutoModeEvent_def split: if_splits)





text \<open>The service as its constructor leaves it, with no files on disk.\<close>

definition initial_world :: world where
  "initial_world =
     \<lparr>runningFeatures = [], autoLoopRunning = False, autoLoopAbortController = None,
      config_projectPath = None, config_maxConcurrency = 3, pendingApprovals = [],
      consecutiveFailures = [], pausedDueToFailures = False, aborted = [],
      promises = (\<lambda>p. Unsettled), timers = [], nextId = 0, emitted = [],
      featureFiles = (\<lambda>k. None), contextFiles = (\<lambda>k. False),
      executionStateFile = (\<lambda>p. None)\<rparr>"





section \<open>Plan-spec updates with retry\<close>


























section \<open>Executing a feature\<close>

definition MAX_QUALITY_FIX_ATTEMPTS :: nat where
  "MAX_QUALITY_FIX_ATTEMPTS = 2"

definition MAX_JUDGE_REVISIONS :: nat where
  "MAX_JUDGE_REVISIONS = 2"

datatype verdict = JudgePass | JudgeRevise | JudgeFail

text \<open>
  What the environment decides during one run of \<^verbatim>\<open>executeFeature\<close>.  An
  \<open>errorInfo option\<close> is the outcome of an awaited step: \<open>None\<close> when it returns,
  \<open>Some e\<close> when it throws an error that \<^verbatim>\<open>classifyError\<close> maps to \<open>e\<close>.
  \<^item> \<open>ee_validate\<close>: \<^verbatim>\<open>validateWorkingDirectory(projectPath)\<close>, the first statement
    of the \<^verbatim>\<open>try\<close> block;
  \<^item> \<open>ee_workdir\<close>: finding the worktree and validating the working directory;
  \<^item> \<open>ee_prepare\<close>: the steps between the status update and the agent run (settings,
    context files, prompts, role models);
  \<^item> \<open>ee_not_found\<close>: \<^verbatim>\<open>classifyError\<close> of the "not found" error;
  \<^item> \<open>ee_agent\<close>, \<open>ee_pipeline\<close>: \<^verbatim>\<open>runAgent\<close> and \<^verbatim>\<open>executePipelineSteps\<close>;
  \<^item> \<open>ee_gate k\<close>: the commands of the quality gate run with \<^verbatim>\<open>attempt = k\<close>;
  \<^item> \<open>ee_fix k\<close>: the \<open>k\<close>-th quality fix revision; \<open>ee_judge k\<close>: the judge's verdict
    after \<open>k\<close> judge revisions; \<open>ee_judge_fix k\<close>: the \<open>k\<close>-th judge revision;
  \<^item> \<open>ee_start\<close>, \<open>ee_end\<close>: \<^verbatim>\<open>Date.now()\<close> at the start and when a failure is tracked.
  Metrics, learnings and the events not listed in \<open>event\<close> are not modelled.
\<close>

record exec_env =
  ee_validate :: "errorInfo option"
  ee_workdir :: "errorInfo option"
  ee_prepare :: "errorInfo option"
  ee_not_found :: errorInfo
  ee_agent :: "errorInfo option"
  ee_pipeline :: "errorInfo option"
  ee_gate :: "nat \<Rightarrow> string \<Rightarrow> exec_outcome"
  ee_fix :: "nat \<Rightarrow> errorInfo option"
  ee_judge :: "nat \<Rightarrow> verdict"
  ee_judge_fix :: "nat \<Rightarrow> errorInfo option"
  ee_start :: int
  ee_end :: int

datatype exec_result =
  Completed string bool
| Errored errorInfo
| StoppedByUser
| ResumedInstead

definition saveExecutionState :: "string \<Rightarrow> world \<Rightarrow> world" where
  "saveExecutionState projectPath w =
     w\<lparr>executionStateFile := (executionStateFile w)(projectPath := Some
        \<lparr>autoLoopWasRunning = autoLoopRunning w,
         es_maxConcurrency =
           (case config_projectPath w of None \<Rightarrow> 3 | Some p \<Rightarrow> config_maxConcurrency w),
         runningFeatureIds = map fst (runningFeatures w)\<rparr>)\<rparr>"

definition loadFeature :: "string \<Rightarrow> string \<Rightarrow> world \<Rightarrow> Feature option" where
  "loadFeature projectPath featureId w = featureFiles w (projectPath, featureId)"

text \<open>\<^verbatim>\<open>updateFeatureStatus\<close>: a missing feature file is silently skipped.\<close>

definition updateFeatureStatus :: "string \<Rightarrow> string \<Rightarrow> string \<Rightarrow> world \<Rightarrow> world" where
  "updateFeatureStatus projectPath featureId st w =
     (case featureFiles w (projectPath, featureId) of
        None \<Rightarrow> w
      | Some feature \<Rightarrow>
          w\<lparr>featureFiles :=
              (featureFiles w)((projectPath, featureId) := Some (feature\<lparr>feature_status := st\<rparr>))\<rparr>)"

text \<open>
  The entry of \<^verbatim>\<open>executeFeature\<close>, up to its first \<^verbatim>\<open>await\<close>: the guard and the
  registration of the running feature with a new abort controller.
\<close>

definition executeFeature_enter ::
  "string \<Rightarrow> string \<Rightarrow> bool \<Rightarrow> int \<Rightarrow> world \<Rightarrow> string + world" where
  "executeFeature_enter projectPath featureId isAutoMode now w =
     (if map_has (runningFeatures w) featureId then Inl ''already running''
      else Inr (w\<lparr>runningFeatures := map_set (runningFeatures w) featureId
                     \<lparr>rf_featureId = featureId, rf_projectPath = projectPath,
                      rf_worktreePath = None, rf_branchName = None,
                      rf_abortController = nextId w, rf_isAutoMode = isAutoMode,
                      rf_startTime = now\<rparr>,
                   nextId := Suc (nextId w)\<rparr>))"

text \<open>
  The quality fix loop
  \<^verbatim>\<open>while (!qualityPassed && qualityFixes < MAX_QUALITY_FIX_ATTEMPTS)\<close>: a revision that
  throws leaves the loop with the error, otherwise the gate is run again.
\<close>

function quality_fix_loop :: "exec_env \<Rightarrow> nat \<Rightarrow> bool \<Rightarrow> errorInfo + bool" where
  "quality_fix_loop env qualityFixes qualityPassed =
     (if \<not> qualityPassed \<and> qualityFixes < MAX_QUALITY_FIX_ATTEMPTS
      then (case ee_fix env (Suc qualityFixes) of
              Some e \<Rightarrow> Inl e
            | None \<Rightarrow>
                quality_fix_loop env (Suc qualityFixes)
                  (passed (fst (runQualityChecks (ee_gate env (Suc qualityFixes))))))
      else Inr qualityPassed)"
  by pat_completeness auto
termination
  by (relation "measure (\<lambda>(env, qualityFixes, qualityPassed). MAX_QUALITY_FIX_ATTEMPTS - qualityFixes)")
     auto

text \<open>The judge revision loop \<^verbatim>\<open>while (!judgePassed && judgeRevisions < MAX_JUDGE_REVISIONS)\<close>.\<close>

function judge_fix_loop :: "exec_env \<Rightarrow> nat \<Rightarrow> bool \<Rightarrow> errorInfo + bool" where
  "judge_fix_loop env judgeRevisions judgePassed =
     (if \<not> judgePassed \<and> judgeRevisions < MAX_JUDGE_REVISIONS
      then (case ee_judge_fix env (Suc judgeRevisions) of
              Some e \<Rightarrow> Inl e
            | None \<Rightarrow>
                judge_fix_loop env (Suc judgeRevisions)
                  (ee_judge env (Suc judgeRevisions) = JudgePass))
      else Inr judgePassed)"
  by pat_completeness auto
termination
  by (relation "measure (\<lambda>(env, judgeRevisions, judgePassed). MAX_JUDGE_REVISIONS - judgeRevisions)")
     auto

text \<open>
  The verification part of the \<^verbatim>\<open>try\<close> block: quality gate with its fix loop (skipped
  when the feature has \<^verbatim>\<open>skipTests\<close>), then the judge with its revision loop (only when
  the gate passed).  The result is the pair \<^verbatim>\<open>(qualityPassed, judgePassed)\<close>.
\<close>

definition verify_feature :: "exec_env \<Rightarrow> Feature \<Rightarrow> errorInfo + bool \<times> bool" where
  "verify_feature env feature =
     (case (if skipTests feature then Inr True
            else quality_fix_loop env 0 (passed (fst (runQualityChecks (ee_gate env 0))))) of
        Inl e \<Rightarrow> Inl e
      | Inr qualityPassed \<Rightarrow>
          (case (if qualityPassed then judge_fix_loop env 0 (ee_judge env 0 = JudgePass)
                 else Inr True) of
             Inl e \<Rightarrow> Inl e
           | Inr judgePassed \<Rightarrow> Inr (qualityPassed, judgePassed)))"

text \<open>
  The \<^verbatim>\<open>try\<close> block after the context check, from the start event on: \<open>Inl e\<close> is an exception on its way to the
  \<^verbatim>\<open>catch\<close> block, \<open>Inr (finalStatus, passedGates)\<close> a run that reached the end.
\<close>

definition executeFeature_try ::
  "exec_env \<Rightarrow> string \<Rightarrow> string \<Rightarrow> world \<Rightarrow> (errorInfo + string \<times> bool) \<times> world" where
  "executeFeature_try env projectPath featureId w =
     (let w1 = emitAutoModeEvent (auto_mode_feature_start featureId) w
      in case loadFeature projectPath featureId w1 of
           None \<Rightarrow> (Inl (ee_not_found env), w1)
         | Some feature \<Rightarrow>
             (case ee_workdir env of
                Some e \<Rightarrow> (Inl e, w1)
              | None \<Rightarrow>
                  let w2 = updateFeatureStatus projectPath featureId ''in_progress'' w1
                  in case (case ee_prepare env of Some e \<Rightarrow> Some e | None \<Rightarrow> ee_agent env) of
                       Some e \<Rightarrow> (Inl e, w2)
                     | None \<Rightarrow>
                         (case ee_pipeline env of
                            Some e \<Rightarrow> (Inl e, w2)
                          | None \<Rightarrow>
                              (case verify_feature env feature of
                                 Inl e \<Rightarrow> (Inl e, w2)
                               | Inr (qualityPassed, judgePassed) \<Rightarrow>
                                   let passedGates = (qualityPassed \<and> judgePassed);
                                       finalStatus =
                                         (if passedGates \<and> \<not> skipTests feature
                                          then ''verified'' else ''waiting_approval'');
                                       w3 = updateFeatureStatus projectPath featureId finalStatus w2;
                                       w4 = (if passedGates then recordSuccess w3
                                             else trackAndSignal (ee_end env)
                                                    \<lparr>err_type = ''quality_gate'',
                                                     err_message = ''Quality gates failed'',
                                                     isAbort = False\<rparr> w3);
                                       w5 = emitAutoModeEvent
                                              (auto_mode_feature_complete featureId passedGates) w4
                                   in (Inr (finalStatus, passedGates), w5)))))"

text \<open>The \<^verbatim>\<open>catch\<close> block.\<close>

definition executeFeature_catch ::
  "exec_env \<Rightarrow> string \<Rightarrow> string \<Rightarrow> errorInfo \<Rightarrow> world \<Rightarrow> exec_result \<times> world" where
  "executeFeature_catch env projectPath featureId e w =
     (if isAbort e
      then (StoppedByUser, emitAutoModeEvent (auto_mode_feature_complete featureId False) w)
      else let w1 = updateFeatureStatus projectPath featureId ''backlog'' w;
               w2 = emitAutoModeEvent (auto_mode_error featureId (err_message e) (err_type e)) w1
           in (Errored e, trackAndSignal (ee_end env) e w2))"

text \<open>The \<^verbatim>\<open>finally\<close> block.\<close>

definition executeFeature_finally :: "string \<Rightarrow> string \<Rightarrow> world \<Rightarrow> world" where
  "executeFeature_finally projectPath featureId w =
     (let w1 = w\<lparr>runningFeatures := map_delete (runningFeatures w) featureId\<rparr>
      in if autoLoopRunning w1 \<and> projectPath \<noteq> [] then saveExecutionState projectPath w1 else w1)"

text \<open>
  \<^verbatim>\<open>executeFeature\<close>.  \<open>Inl\<close> is the rejection "already running".  When the feature has
  saved context and no continuation prompt is given, the entry is deleted and the call
  returns what \<^verbatim>\<open>resumeFeature\<close> returns (result \<open>ResumedInstead\<close>; the resumed run
  itself is a later call).
\<close>

definition executeFeature ::
  "exec_env \<Rightarrow> string \<Rightarrow> string \<Rightarrow> bool \<Rightarrow> string option \<Rightarrow> world \<Rightarrow>
   (string + exec_result) \<times> world" where
  "executeFeature env projectPath featureId isAutoMode continuationPrompt w =
     (case executeFeature_enter projectPath featureId isAutoMode (ee_start env) w of
        Inl err \<Rightarrow> (Inl err, w)
      | Inr w1 \<Rightarrow>
          let w2 = (if isAutoMode then saveExecutionState projectPath w1 else w1);
              (r, w3) =
                (case ee_validate env of
                   Some e \<Rightarrow> executeFeature_catch env projectPath featureId e w2
                 | None \<Rightarrow>
                 if (continuationPrompt = None \<or> continuationPrompt = Some [])
                    \<and> contextFiles w2 (projectPath, featureId)
                 then (ResumedInstead,
                       w2\<lparr>runningFeatures := map_delete (runningFeatures w2) featureId\<rparr>)
                 else (case executeFeature_try env projectPath featureId w2 of
                         (Inl e, w') \<Rightarrow> executeFeature_catch env projectPath featureId e w'
                       | (Inr (finalStatus, passedGates), w') \<Rightarrow>
                           (Completed finalStatus passedGates, w')))
          in (Inr r, executeFeature_finally projectPath featureId w3))"

text \<open>\<^verbatim>\<open>cancelPlanApproval\<close> and \<^verbatim>\<open>stopFeature\<close>.\<close>

definition settle :: "nat \<Rightarrow> promise_state \<Rightarrow> world \<Rightarrow> world" where
  "settle p v w = (if promises w p = Unsettled then w\<lparr>promises := (promises w)(p := v)\<rparr> else w)"

definition clearTimeout :: "nat \<Rightarrow> world \<Rightarrow> world" where
  "clearTimeout p w = w\<lparr>timers := removeAll p (timers w)\<rparr>"




section \<open>Final status of a completed run\<close>








lemma featureFiles_trackAndSignal [simp]:
  "featureFiles (trackAndSignal now e w) = featureFiles w"
  by (simp add: trackAndSignal_def trackFailureAndCheckPause_def signalShouldPause_def
      stopAutoLoop_def emitAutoModeEvent_def clearExecutionState_def Let_def
      split: option.splits)

lemma featureFiles_finally [simp]:
  "featureFiles (executeFeature_finally projectPath featureId w) = featureFiles w"
  by (simp add: executeFeature_finally_def saveExecutionState_def Let_def)










section \<open>The registry of running features\<close>


definition entries_for :: "('k \<times> 'v) list \<Rightarrow> 'k \<Rightarrow> nat" where
  "entries_for m k = length (filter (\<lambda>kv. fst kv = k) m)"

lemma map_set_keys: "fst ` set (map_set m k v) = insert k (fst ` set m)"
proof (induction m)
  case Nil
  show ?case by simp
next
  case (Cons kv m)
  obtain k' v' where kv: "kv = (k', v')" by (cases kv)
  show ?case
  proof (cases "k' = k")
    case True
    then show ?thesis by (simp add: kv)
  next
    case False
    then show ?thesis using Cons.IH by (simp add: kv insert_commute)
  qed
qed

lemma map_set_distinct: "distinct (map fst m) \<Longrightarrow> distinct (map fst (map_set m k v))"
proof (induction m)
  case Nil
  show ?case by simp
next
  case (Cons kv m)
  obtain k' v' where kv: "kv = (k', v')" by (cases kv)
  show ?case
  proof (cases "k' = k")
    case True
    then show ?thesis using Cons.prems by (simp add: kv)
  next
    case False
    have "k' \<notin> set (map fst (map_set m k v))"
      using Cons.prems False by (simp add: kv map_set_keys)
    then show ?thesis using Cons by (simp add: kv False)
  qed
qed



lemma distinct_entries_for: "distinct (map fst m) \<Longrightarrow> entries_for m k \<le> 1"
proof (induction m)
  case Nil
  show ?case by (simp add: entries_for_def)
next
  case (Cons kv m)
  show ?case
  proof (cases "fst kv = k")
    case True
    then have "k \<notin> fst ` set m" using Cons.prems by auto
    then have "filter (\<lambda>kv. fst kv = k) m = []"
      by (auto simp: filter_empty_conv)
    then show ?thesis using True by (simp add: entries_for_def)
  next
    case False
    then show ?thesis using Cons by (simp add: entries_for_def)
  qed
qed

lemma map_has_delete [simp]: "\<not> map_has (map_delete m k) k"
  by (auto simp: map_has_def map_delete_def)

lemma map_get_set [simp]: "map_get (map_set m k v) k = Some v"
  by (induction m) (auto simp: map_get_def)

lemma map_get_set_other: "k' \<noteq> k \<Longrightarrow> map_get (map_set m k v) k' = map_get m k'"
  by (induction m) (auto simp: map_get_def)


lemma runningFeatures_trackAndSignal [simp]:
  "runningFeatures (trackAndSignal now e w) = runningFeatures w"
  by (simp add: trackAndSignal_def trackFailureAndCheckPause_def signalShouldPause_def
      stopAutoLoop_def emitAutoModeEvent_def clearExecutionState_def Let_def
      split: option.splits)

lemma finally_removes [simp]:
  "\<not> map_has (runningFeatures (executeFeature_finally projectPath featureId w)) featureId"
  by (simp add: executeFeature_finally_def saveExecutionState_def Let_def)

lemma executeFeature_removes:
  "\<not> map_has (runningFeatures w) featureId \<Longrightarrow>
     \<not> map_has (runningFeatures
          (snd (executeFeature env projectPath featureId isAutoMode continuationPrompt w)))
        featureId"
  by (simp add: executeFeature_def Let_def split: sum.splits prod.splits)



lemma runningFeatures_updateFeatureStatus [simp]:
  "runningFeatures (updateFeatureStatus projectPath featureId st w) = runningFeatures w"
  by (simp add: updateFeatureStatus_def split: option.splits)

lemma runningFeatures_try [simp]:
  "runningFeatures (snd (executeFeature_try env projectPath featureId w)) = runningFeatures w"
  by (simp add: executeFeature_try_def Let_def emitAutoModeEvent_def recordSuccess_def
      split: option.splits sum.splits prod.splits)

lemma runningFeatures_catch [simp]:
  "runningFeatures (snd (executeFeature_catch env projectPath featureId e w)) = runningFeatures w"
  by (simp add: executeFeature_catch_def Let_def emitAutoModeEvent_def)


lemma map_delete_idem [simp]: "map_delete (map_delete m k) k = map_delete m k"
  by (simp add: map_delete_def)










section \<open>Plan approval\<close>

text \<open>
  \<^verbatim>\<open>waitForPlanApproval\<close>: the executor of the new promise runs at once; it starts the
  timeout and stores the waiter under the feature id.  The result names the promise.
\<close>

definition waitForPlanApproval :: "string \<Rightarrow> string \<Rightarrow> world \<Rightarrow> nat \<times> world" where
  "waitForPlanApproval featureId projectPath w =
     (let p = nextId w
      in (p, w\<lparr>nextId := Suc p,
               promises := (promises w)(p := Unsettled),
               timers := timers w @ [p],
               pendingApprovals := map_set (pendingApprovals w) featureId
                 \<lparr>pa_promise = p, pa_featureId = featureId, pa_projectPath = projectPath\<rparr>\<rparr>))"

text \<open>
  The timeout callback of the waiter with promise \<open>p\<close>, registered for \<open>featureId\<close>; it
  runs only while its timer has not been cleared.  It looks the feature id up in the
  table and rejects its own promise.
\<close>

definition approvalTimeout :: "nat \<Rightarrow> string \<Rightarrow> world \<Rightarrow> world" where
  "approvalTimeout p featureId w =
     (if p \<notin> set (timers w) then w
      else let w1 = w\<lparr>timers := removeAll p (timers w)\<rparr>
           in case map_get (pendingApprovals w1) featureId of
                None \<Rightarrow> w1
              | Some pending \<Rightarrow>
                  settle p (RejectedWith
                    ''Plan approval timed out after 30 minutes - feature execution cancelled'')
                    (w1\<lparr>pendingApprovals := map_delete (pendingApprovals w1) featureId\<rparr>))"

text \<open>
  The update objects that \<^verbatim>\<open>resolvePlanApproval\<close> passes to
  \<^verbatim>\<open>updateFeaturePlanSpec\<close>.  \<^verbatim>\<open>Object.assign\<close> copies every property the object
  has, also one whose value is \<^verbatim>\<open>undefined\<close>: \<open>None\<close> is an absent property,
  \<open>Some None\<close> a property that is present and undefined.
\<close>

record plan_updates =
  u_status :: "PlanStatus option"
  u_approvedAt :: "string option option"
  u_reviewedByUser :: "bool option"
  u_content :: "string option option"

definition assign_updates :: "PlanSpec \<Rightarrow> plan_updates \<Rightarrow> PlanSpec" where
  "assign_updates ps u =
     ps\<lparr>plan_status := (case u_status u of None \<Rightarrow> plan_status ps | Some s \<Rightarrow> s),
        approvedAt := (case u_approvedAt u of None \<Rightarrow> approvedAt ps | Some a \<Rightarrow> a),
        reviewedByUser := (case u_reviewedByUser u of None \<Rightarrow> reviewedByUser ps | Some r \<Rightarrow> r),
        content := (case u_content u of None \<Rightarrow> content ps | Some c \<Rightarrow> c)\<rparr>"

text \<open>A string is truthy when it is defined and not empty.\<close>

definition truthy :: "string option \<Rightarrow> bool" where
  "truthy s = (case s of None \<Rightarrow> False | Some x \<Rightarrow> x \<noteq> [])"

text \<open>
  \<^verbatim>\<open>updateFeaturePlanSpec\<close> for these update objects (none of them has a task field, so
  the task state version is only initialised).  The content comparison is made after the
  assignment, as in the source.  A missing file is logged and skipped.
\<close>

definition updateFeaturePlanSpec :: "string \<Rightarrow> string \<Rightarrow> plan_updates \<Rightarrow> world \<Rightarrow> world" where
  "updateFeaturePlanSpec projectPath featureId updates w =
     (case featureFiles w (projectPath, featureId) of
        None \<Rightarrow> w
      | Some feature \<Rightarrow>
          let ps0 = (case planSpec feature of
                       None \<Rightarrow> \<lparr>plan_status = PlanPending, content = None, version = 1,
                                 approvedAt = None, reviewedByUser = False,
                                 tasksCompleted = None, tasksTotal = None, currentTaskId = None,
                                 currentTaskIds = None, tasks = None, taskStateVersion = None\<rparr>
                     | Some ps \<Rightarrow> ps);
              ps1 = (if taskStateVersion ps0 = None then ps0\<lparr>taskStateVersion := Some 0\<rparr> else ps0);
              ps2 = assign_updates ps1 updates;
              ps3 = (case u_content updates of
                       Some c \<Rightarrow> if truthy c \<and> c \<noteq> content ps2
                                 then ps2\<lparr>version := version ps2 + 1\<rparr> else ps2
                     | None \<Rightarrow> ps2)
          in w\<lparr>featureFiles :=
               (featureFiles w)((projectPath, featureId) := Some (feature\<lparr>planSpec := Some ps3\<rparr>))\<rparr>)"

record resolve_result =
  success :: bool
  error_text :: "string option"

text \<open>A call of \<^verbatim>\<open>executeFeature\<close> that is started and not awaited.\<close>

record background_call =
  bc_projectPath :: string
  bc_featureId :: string
  bc_useWorktrees :: bool
  bc_isAutoMode :: bool
  bc_continuationPrompt :: "string option"

definition newline :: string where
  "newline = [CHR 0x0A]"

definition continuation_prompt :: "string option \<Rightarrow> string \<Rightarrow> string" where
  "continuation_prompt fb planContent =
     ''The plan/specification has been approved. '' @
     (case fb of
        None \<Rightarrow> []
      | Some f \<Rightarrow> if f = [] then []
                  else newline @ newline @ ''User feedback: '' @ f @ newline @ newline) @
     ''Now proceed with the implementation as specified in the plan:'' @ newline @ newline @
     planContent @ newline @ newline @ ''Implement the feature now.''"

text \<open>
  \<^verbatim>\<open>resolvePlanApproval\<close>.  \<open>nowIso\<close> is the current time as a string, \<open>now\<close> as a
  number.  The background call of the recovery path runs up to its first \<^verbatim>\<open>await\<close>
  before \<^verbatim>\<open>resolvePlanApproval\<close> returns; its rejection is caught and logged.
\<close>

definition resolvePlanApproval ::
  "string \<Rightarrow> bool \<Rightarrow> string option \<Rightarrow> string option \<Rightarrow> string option \<Rightarrow> string \<Rightarrow> int \<Rightarrow>
   world \<Rightarrow> resolve_result \<times> background_call option \<times> world" where
  "resolvePlanApproval featureId appr edited fb projectPathFromClient nowIso now w =
     (case map_get (pendingApprovals w) featureId of
        None \<Rightarrow>
          (case (if truthy projectPathFromClient
                 then (case loadFeature (the projectPathFromClient) featureId w of
                         None \<Rightarrow> None
                       | Some feature \<Rightarrow>
                           (case planSpec feature of
                              None \<Rightarrow> None
                            | Some ps \<Rightarrow> if plan_status ps = PlanGenerated then Some ps else None))
                 else None) of
             Some ps \<Rightarrow>
               let projectPath = the projectPathFromClient
               in if appr
                  then let w1 = updateFeaturePlanSpec projectPath featureId
                                  \<lparr>u_status = Some PlanApproved, u_approvedAt = Some (Some nowIso),
                                   u_reviewedByUser = Some True,
                                   u_content = Some (if truthy edited then edited else content ps)\<rparr> w;
                           planContent = (if truthy edited then the edited
                                          else if truthy (content ps) then the (content ps)
                                          else []);
                           call = \<lparr>bc_projectPath = projectPath, bc_featureId = featureId,
                                   bc_useWorktrees = True, bc_isAutoMode = False,
                                   bc_continuationPrompt = Some (continuation_prompt fb planContent)\<rparr>;
                           w2 = (case executeFeature_enter projectPath featureId False now w1 of
                                   Inl err \<Rightarrow> w1
                                 | Inr w' \<Rightarrow> w')
                       in (\<lparr>success = True, error_text = None\<rparr>, Some call, w2)
                  else let w1 = updateFeaturePlanSpec projectPath featureId
                                  \<lparr>u_status = Some PlanRejected, u_approvedAt = None,
                                   u_reviewedByUser = Some True, u_content = None\<rparr> w;
                           w2 = updateFeatureStatus projectPath featureId ''backlog'' w1;
                           w3 = emitAutoModeEvent (plan_rejected featureId fb) w2
                       in (\<lparr>success = True, error_text = None\<rparr>, None, w3)
           | None \<Rightarrow>
               (\<lparr>success = False,
                 error_text = Some (''No pending approval for feature '' @ featureId)\<rparr>, None, w))
      | Some pending \<Rightarrow>
          let w1 = updateFeaturePlanSpec (pa_projectPath pending) featureId
                     \<lparr>u_status = Some (if appr then PlanApproved else PlanRejected),
                      u_approvedAt = Some (if appr then Some nowIso else None),
                      u_reviewedByUser = Some True, u_content = Some edited\<rparr> w;
              w2 = (if \<not> appr \<and> truthy fb
                    then emitAutoModeEvent (plan_rejected featureId fb) w1 else w1);
              w3 = settle (pa_promise pending)
                     (Fulfilled \<lparr>approved = appr, editedPlan = edited, feedback = fb\<rparr>)
                     (clearTimeout (pa_promise pending) w2)
          in (\<lparr>success = True, error_text = None\<rparr>, None,
              w3\<lparr>pendingApprovals := map_delete (pendingApprovals w3) featureId\<rparr>))"


lemma waitForPlanApproval_table:
  "pendingApprovals (snd (waitForPlanApproval featureId projectPath w)) =
     map_set (pendingApprovals w) featureId
       \<lparr>pa_promise = nextId w, pa_featureId = featureId, pa_projectPath = projectPath\<rparr>"
  "fst (waitForPlanApproval featureId projectPath w) = nextId w"
  "promises (snd (waitForPlanApproval featureId projectPath w)) = (promises w)(nextId w := Unsettled)"
  by (simp_all add: waitForPlanApproval_def Let_def)

lemma entries_for_map_set:
  "distinct (map fst m) \<Longrightarrow> entries_for (map_set m k v) k = 1"
proof -
  assume "distinct (map fst m)"
  then have "distinct (map fst (map_set m k v))" by (rule map_set_distinct)
  then have "entries_for (map_set m k v) k \<le> 1" by (rule distinct_entries_for)
  moreover have "k \<in> fst ` set (map_set m k v)" by (simp add: map_set_keys)
  then have "filter (\<lambda>kv. fst kv = k) (map_set m k v) \<noteq> []"
    by (auto simp: filter_empty_conv)
  then have "entries_for (map_set m k v) k \<noteq> 0" by (simp add: entries_for_def)
  ultimately show ?thesis by simp
qed

text \<open>
  Claim C7, as the code has it.  Registering a waiter never fails and rejects nothing:
  the new waiter is stored under the feature id with a promise that is unsettled, every
  other promise and every other feature's waiter is left as it was, and the table holds
  exactly one waiter for the feature afterwards, the new one.  A waiter that the feature
  had before is replaced in the table, and its promise is not settled by the
  registration.
\<close>

theorem approval_waiter_replaced:
  "distinct (map fst (pendingApprovals w)) \<and>
   (\<forall>kv \<in> set (pendingApprovals w). pa_promise (snd kv) < nextId w) \<longrightarrow>
   (let p = fst (waitForPlanApproval featureId projectPath w);
        w' = snd (waitForPlanApproval featureId projectPath w)
    in distinct (map fst (pendingApprovals w')) \<and>
       entries_for (pendingApprovals w') featureId = 1 \<and>
       map_get (pendingApprovals w') featureId =
         Some \<lparr>pa_promise = p, pa_featureId = featureId, pa_projectPath = projectPath\<rparr> \<and>
       promises w' p = Unsettled \<and>
       (\<forall>q. q \<noteq> p \<longrightarrow> promises w' q = promises w q) \<and>
       (\<forall>k. k \<noteq> featureId \<longrightarrow>
            map_get (pendingApprovals w') k = map_get (pendingApprovals w) k) \<and>
       (\<forall>earlier. map_get (pendingApprovals w) featureId = Some earlier \<longrightarrow>
            pa_promise earlier \<noteq> p \<and>
            promises w' (pa_promise earlier) = promises w (pa_promise earlier)))"
proof
  assume a: "distinct (map fst (pendingApprovals w)) \<and>
   (\<forall>kv \<in> set (pendingApprovals w). pa_promise (snd kv) < nextId w)"
  have old: "pa_promise earlier \<noteq> nextId w"
    if "map_get (pendingApprovals w) featureId = Some earlier" for earlier
  proof -
    from that have "(featureId, earlier) \<in> set (pendingApprovals w)"
      by (simp add: map_get_def map_of_SomeD)
    with a have "pa_promise earlier < nextId w" by force
    then show ?thesis by simp
  qed
  show "(let p = fst (waitForPlanApproval featureId projectPath w);
        w' = snd (waitForPlanApproval featureId projectPath w)
    in distinct (map fst (pendingApprovals w')) \<and>
       entries_for (pendingApprovals w') featureId = 1 \<and>
       map_get (pendingApprovals w') featureId =
         Some \<lparr>pa_promise = p, pa_featureId = featureId, pa_projectPath = projectPath\<rparr> \<and>
       promises w' p = Unsettled \<and>
       (\<forall>q. q \<noteq> p \<longrightarrow> promises w' q = promises w q) \<and>
       (\<forall>k. k \<noteq> featureId \<longrightarrow>
            map_get (pendingApprovals w') k = map_get (pendingApprovals w) k) \<and>
       (\<forall>earlier. map_get (pendingApprovals w) featureId = Some earlier \<longrightarrow>
            pa_promise earlier \<noteq> p \<and>
            promises w' (pa_promise earlier) = promises w (pa_promise earlier)))"
    using a old
    by (simp add: Let_def waitForPlanApproval_table map_set_distinct entries_for_map_set
        map_get_set_other)
qed


text \<open>The service after a first waiter has been registered for feature \<^verbatim>\<open>f1\<close>.\<close>

definition waiting_world :: world where
  "waiting_world = snd (waitForPlanApproval ''f1'' ''/p'' initial_world)"

lemma waiting_world_fields:
  "pendingApprovals waiting_world =
     [(''f1'', \<lparr>pa_promise = 0, pa_featureId = ''f1'', pa_projectPath = ''/p''\<rparr>)]"
  "nextId waiting_world = 1"
  "promises waiting_world = (\<lambda>p. Unsettled)"
  "timers waiting_world = [0]"
  by (auto simp: waiting_world_def waitForPlanApproval_def initial_world_def Let_def)

theorem approval_waiter_replaced_witness:
  "distinct (map fst (pendingApprovals waiting_world)) \<and>
   map_get (pendingApprovals waiting_world) ''f1'' =
     Some \<lparr>pa_promise = 0, pa_featureId = ''f1'', pa_projectPath = ''/p''\<rparr> \<and>
   fst (waitForPlanApproval ''f1'' ''/p'' waiting_world) = 1 \<and>
   entries_for (pendingApprovals (snd (waitForPlanApproval ''f1'' ''/p'' waiting_world))) ''f1'' = 1 \<and>
   map_get (pendingApprovals (snd (waitForPlanApproval ''f1'' ''/p'' waiting_world))) ''f1'' =
     Some \<lparr>pa_promise = 1, pa_featureId = ''f1'', pa_projectPath = ''/p''\<rparr> \<and>
   promises (snd (waitForPlanApproval ''f1'' ''/p'' waiting_world)) 1 = Unsettled \<and>
   promises (snd (waitForPlanApproval ''f1'' ''/p'' waiting_world)) 0 = Unsettled"
proof -
  have d: "distinct (map fst (pendingApprovals waiting_world))"
    by (simp add: waiting_world_fields)
  have b: "\<forall>kv \<in> set (pendingApprovals waiting_world). pa_promise (snd kv) < nextId waiting_world"
    by (simp add: waiting_world_fields)
  have g: "map_get (pendingApprovals waiting_world) ''f1'' =
     Some \<lparr>pa_promise = 0, pa_featureId = ''f1'', pa_projectPath = ''/p''\<rparr>"
    by (simp add: waiting_world_fields map_get_def)
  have p: "fst (waitForPlanApproval ''f1'' ''/p'' waiting_world) = 1"
    by (simp add: waitForPlanApproval_table waiting_world_fields)
  note t = approval_waiter_replaced [of waiting_world "''f1''" "''/p''", unfolded Let_def p]
  from t d b g have
    "entries_for (pendingApprovals (snd (waitForPlanApproval ''f1'' ''/p'' waiting_world))) ''f1'' = 1"
    "map_get (pendingApprovals (snd (waitForPlanApproval ''f1'' ''/p'' waiting_world))) ''f1'' =
       Some \<lparr>pa_promise = 1, pa_featureId = ''f1'', pa_projectPath = ''/p''\<rparr>"
    "promises (snd (waitForPlanApproval ''f1'' ''/p'' waiting_world)) 1 = Unsettled"
    "promises (snd (waitForPlanApproval ''f1'' ''/p'' waiting_world)) 0 =
       promises waiting_world 0"
    by auto
  with d g p show ?thesis
    by (simp add: waiting_world_fields)
qed

text \<open>
  The claim as the specification words it fails: a second registration for a feature that
  has an outstanding waiter is not rejected (its promise is unsettled and it takes the
  place in the table), and the earlier waiter is dropped from the table without being
  settled; a later approval reaches only the second waiter.
\<close>

theorem second_waiter_not_rejected:
  "map_has (pendingApprovals waiting_world) ''f1'' \<and>
   map_option pa_promise (map_get (pendingApprovals waiting_world) ''f1'') = Some 0 \<and>
   fst (waitForPlanApproval ''f1'' ''/p'' waiting_world) = 1 \<and>
   \<not> (\<exists>msg. promises (snd (waitForPlanApproval ''f1'' ''/p'' waiting_world)) 1 = RejectedWith msg) \<and>
   map_option pa_promise
     (map_get (pendingApprovals (snd (waitForPlanApproval ''f1'' ''/p'' waiting_world))) ''f1'') =
     Some 1 \<and>
   promises (snd (waitForPlanApproval ''f1'' ''/p'' waiting_world)) 0 = Unsettled \<and>
   (let w3 = snd (snd (resolvePlanApproval ''f1'' True None None None ''t'' 0
                    (snd (waitForPlanApproval ''f1'' ''/p'' waiting_world))))
    in promises w3 1 = Fulfilled \<lparr>approved = True, editedPlan = None, feedback = None\<rparr> \<and>
       promises w3 0 = Unsettled \<and> pendingApprovals w3 = [])"
proof -
  let ?w2 = "snd (waitForPlanApproval ''f1'' ''/p'' waiting_world)"
  have tbl: "pendingApprovals ?w2 =
      [(''f1'', \<lparr>pa_promise = 1, pa_featureId = ''f1'', pa_projectPath = ''/p''\<rparr>)]"
    by (simp add: waitForPlanApproval_table waiting_world_fields)
  have pr: "promises ?w2 = (\<lambda>p. Unsettled)"
    by (auto simp: waitForPlanApproval_table waiting_world_fields)
  have files: "featureFiles ?w2 = (\<lambda>k. None)"
    by (simp add: waitForPlanApproval_def Let_def waiting_world_def initial_world_def)
  have res: "(let w3 = snd (snd (resolvePlanApproval ''f1'' True None None None ''t'' 0 ?w2))
    in promises w3 1 = Fulfilled \<lparr>approved = True, editedPlan = None, feedback = None\<rparr> \<and>
       promises w3 0 = Unsettled \<and> pendingApprovals w3 = [])"
    by (simp add: resolvePlanApproval_def tbl map_get_def Let_def updateFeaturePlanSpec_def
        files settle_def clearTimeout_def pr map_delete_def)
  show ?thesis
    using res
    by (simp add: tbl pr waiting_world_fields map_has_def map_get_def waitForPlanApproval_table)
qed


section \<open>Resolving an approval that has no waiter\<close>



lemma updateFeaturePlanSpec_others [simp]:
  "runningFeatures (updateFeaturePlanSpec projectPath featureId u w) = runningFeatures w"
  "emitted (updateFeaturePlanSpec projectPath featureId u w) = emitted w"
  "nextId (updateFeaturePlanSpec projectPath featureId u w) = nextId w"
  by (simp_all add: updateFeaturePlanSpec_def Let_def split: option.splits)











section \<open>The dependency-aware task scheduler\<close>

definition DEFAULT_MAX_TASK_CONCURRENCY :: nat where
  "DEFAULT_MAX_TASK_CONCURRENCY = 3"

definition MAX_TASK_CONCURRENCY_CAP :: nat where
  "MAX_TASK_CONCURRENCY_CAP = 8"

text \<open>
  \<^verbatim>\<open>Math.max(1, Math.min(settings?.maxConcurrency ?? DEFAULT, CAP))\<close>, for a setting that
  is a natural number or missing.
\<close>

definition maxTaskConcurrency :: "nat option \<Rightarrow> nat" where
  "maxTaskConcurrency setting =
     max 1 (min (case setting of None \<Rightarrow> DEFAULT_MAX_TASK_CONCURRENCY | Some c \<Rightarrow> c)
                MAX_TASK_CONCURRENCY_CAP)"

text \<open>
  \<^verbatim>\<open>taskMap\<close> is built from the pairs \<^verbatim>\<open>[task.id, task]\<close> in order, so an id that occurs
  twice maps to the last task that has it.  The result is the position of that task in
  the array: the map holds the task objects themselves, whose status changes in place.
\<close>

fun taskMap_from :: "ParsedTask list \<Rightarrow> nat \<Rightarrow> string \<Rightarrow> nat option" where
  "taskMap_from [] k i = None"
| "taskMap_from (t # ts) k i =
     (case taskMap_from ts (Suc k) i of
        Some j \<Rightarrow> Some j
      | None \<Rightarrow> if task_id t = i then Some k else None)"

definition taskMap :: "ParsedTask list \<Rightarrow> string \<Rightarrow> nat option" where
  "taskMap ts i = taskMap_from ts 0 i"

definition deps_of :: "ParsedTask \<Rightarrow> string list" where
  "deps_of t = (case dependsOn t of None \<Rightarrow> [] | Some ds \<Rightarrow> ds)"

text \<open>The first \<^verbatim>\<open>for\<close> loop: a task with a dependency that no task has is blocked.\<close>

definition mark_missing :: "ParsedTask list \<Rightarrow> ParsedTask list" where
  "mark_missing ts =
     map (\<lambda>t. if filter (\<lambda>d. taskMap ts d = None) (deps_of t) \<noteq> []
              then t\<lparr>task_status := TaskBlocked\<rparr> else t) ts"

definition has_missing :: "ParsedTask list \<Rightarrow> bool" where
  "has_missing ts = (\<exists>t \<in> set ts. filter (\<lambda>d. taskMap ts d = None) (deps_of t) \<noteq> [])"

text \<open>
  \<^verbatim>\<open>isReady\<close>: the status of a dependency is read through \<^verbatim>\<open>taskMap\<close>
  (\<^verbatim>\<open>taskMap.get(depId)?.status === 'completed'\<close>).
\<close>

definition dep_completed :: "ParsedTask list \<Rightarrow> string \<Rightarrow> bool" where
  "dep_completed ts d =
     (case taskMap ts d of None \<Rightarrow> False | Some j \<Rightarrow> task_status (ts ! j) = TaskCompleted)"

definition isReady :: "ParsedTask list \<Rightarrow> ParsedTask \<Rightarrow> bool" where
  "isReady ts t = (task_status t = TaskPending \<and> list_all (dep_completed ts) (deps_of t))"

text \<open>
  What happens while the scheduler is suspended at one \<^verbatim>\<open>await\<close>, and what it sees when
  it goes on:
  \<^item> \<open>settled\<close>: the ids whose task promises settle meanwhile; their \<^verbatim>\<open>finally\<close>
    callbacks delete them from \<^verbatim>\<open>inFlight\<close>;
  \<^item> \<open>winner\<close>, \<open>winner_ok\<close>: for an \<^verbatim>\<open>await Promise.race(...)\<close>, which of the promises
    in flight settles first (a position in \<^verbatim>\<open>inFlight\<close>, taken modulo its size) and
    whether its task completed or failed;
  \<^item> \<open>abort_seen\<close>: the value of \<^verbatim>\<open>signal.aborted\<close> at the next check.
  The environment is a sequence of these, one for each \<^verbatim>\<open>await\<close> in the order in which
  they are reached.  Every promise in flight is assumed to settle at some time.
\<close>

record await_env =
  settled :: "string list"
  winner :: nat
  winner_ok :: bool
  abort_seen :: bool

text \<open>
  The scheduler's variables.  \<^verbatim>\<open>readyQueue\<close> holds task objects, here their positions;
  \<^verbatim>\<open>inFlight\<close> is the list of the keys of the map, in insertion order.  \<open>clock\<close> counts the
  \<^verbatim>\<open>await\<close>s passed.  \<open>synced\<close> collects the task arrays handed to \<^verbatim>\<open>syncPlanSpec\<close>, and
  \<open>started\<close> records every call of \<^verbatim>\<open>scheduleTask\<close>: the position of the task, and the task
  array and the keys in flight at the time of the call.
\<close>

record sched_state =
  st_tasks :: "ParsedTask list"
  readyQueue :: "nat list"
  inFlight :: "string list"
  hadFailure :: bool
  clock :: nat
  synced :: "ParsedTask list list"
  started :: "(nat \<times> ParsedTask list \<times> string list) list"

definition syncPlanSpec :: "sched_state \<Rightarrow> sched_state" where
  "syncPlanSpec st = st\<lparr>synced := synced st @ [st_tasks st]\<rparr>"

text \<open>Passing an \<^verbatim>\<open>await\<close>: promises that settle meanwhile leave \<^verbatim>\<open>inFlight\<close>.\<close>

definition pass_await :: "(nat \<Rightarrow> await_env) \<Rightarrow> sched_state \<Rightarrow> sched_state" where
  "pass_await env st =
     st\<lparr>inFlight := filter (\<lambda>i. i \<notin> set (settled (env (clock st)))) (inFlight st),
        clock := Suc (clock st)\<rparr>"

definition set_status :: "ParsedTask list \<Rightarrow> nat \<Rightarrow> PlanTaskStatus \<Rightarrow> ParsedTask list" where
  "set_status ts k s = (if k < length ts then ts[k := (ts ! k)\<lparr>task_status := s\<rparr>] else ts)"

text \<open>\<^verbatim>\<open>inFlight.set(id, promise)\<close> on the list of keys.\<close>

definition keys_set :: "string list \<Rightarrow> string \<Rightarrow> string list" where
  "keys_set ks i = (if i \<in> set ks then ks else ks @ [i])"

text \<open>
  \<^verbatim>\<open>scheduleTask\<close> for the task at position \<open>k\<close>: the status is set, the plan spec synced
  (an \<^verbatim>\<open>await\<close>), and then the promise of the task call is stored in \<^verbatim>\<open>inFlight\<close>.
\<close>

definition scheduleTask :: "(nat \<Rightarrow> await_env) \<Rightarrow> nat \<Rightarrow> sched_state \<Rightarrow> sched_state" where
  "scheduleTask env k st =
     (let st1 = st\<lparr>started := started st @ [(k, st_tasks st, inFlight st)],
                   st_tasks := set_status (st_tasks st) k TaskInProgress\<rparr>;
          st2 = pass_await env (syncPlanSpec st1)
      in st2\<lparr>inFlight := keys_set (inFlight st2) (task_id (st_tasks st2 ! k))\<rparr>)"

text \<open>
  The inner loop
  \<^verbatim>\<open>while (!hadFailure && inFlight.size < maxTaskConcurrency && readyQueue.length > 0)\<close>.
\<close>

function admit :: "(nat \<Rightarrow> await_env) \<Rightarrow> nat \<Rightarrow> sched_state \<Rightarrow> sched_state" where
  "admit env cap st =
     (if \<not> hadFailure st \<and> length (inFlight st) < cap \<and> readyQueue st \<noteq> []
      then admit env cap
             (scheduleTask env (hd (readyQueue st)) (st\<lparr>readyQueue := tl (readyQueue st)\<rparr>))
      else st)"
  by pat_completeness auto
termination
  by (relation "measure (\<lambda>(env, cap, st). length (readyQueue st))")
     (auto simp: scheduleTask_def pass_await_def syncPlanSpec_def Let_def)

declare admit.simps [simp del]

text \<open>
  The \<^verbatim>\<open>for\<close> loop that refills the queue after a task has finished: every task that is
  ready, not queued and not in flight is pushed, in array order.
\<close>

fun enqueue_ready :: "nat list \<Rightarrow> sched_state \<Rightarrow> sched_state" where
  "enqueue_ready [] st = st"
| "enqueue_ready (k # ks) st =
     enqueue_ready ks
       (if isReady (st_tasks st) (st_tasks st ! k) \<and> k \<notin> set (readyQueue st) \<and>
           task_id (st_tasks st ! k) \<notin> set (inFlight st)
        then st\<lparr>readyQueue := readyQueue st @ [k]\<rparr> else st)"

text \<open>
  From \<^verbatim>\<open>await Promise.race(inFlight.values())\<close> to the end of the loop body, for a
  non-empty \<^verbatim>\<open>inFlight\<close>.
\<close>

definition after_race :: "(nat \<Rightarrow> await_env) \<Rightarrow> sched_state \<Rightarrow> sched_state" where
  "after_race env st =
     (let e = env (clock st);
          result_id = inFlight st ! (winner e mod length (inFlight st));
          st1 = pass_await env (st\<lparr>inFlight := removeAll result_id (inFlight st)\<rparr>)
      in case taskMap (st_tasks st1) result_id of
           None \<Rightarrow> st1
         | Some k \<Rightarrow>
             let st2 = (if winner_ok e
                        then st1\<lparr>st_tasks := set_status (st_tasks st1) k TaskCompleted\<rparr>
                        else st1\<lparr>st_tasks := set_status (st_tasks st1) k TaskFailed,
                                 hadFailure := True\<rparr>);
                 st3 = pass_await env (syncPlanSpec st2)
             in if \<not> hadFailure st3 then enqueue_ready [0..<length (st_tasks st3)] st3 else st3)"

datatype sched_error = Aborted | TasksFailed | CycleDetected

definition block_pending :: "ParsedTask list \<Rightarrow> ParsedTask list" where
  "block_pending ts =
     map (\<lambda>t. if task_status t = TaskPending then t\<lparr>task_status := TaskBlocked\<rparr> else t) ts"

text \<open>After the loop.\<close>

definition finish :: "(nat \<Rightarrow> await_env) \<Rightarrow> sched_state \<Rightarrow> sched_error option \<times> sched_state" where
  "finish env st =
     (if hadFailure st
      then (Some TasksFailed,
            pass_await env (syncPlanSpec (st\<lparr>st_tasks := block_pending (st_tasks st)\<rparr>)))
      else if filter (\<lambda>t. task_status t = TaskPending) (st_tasks st) \<noteq> []
      then (Some CycleDetected,
            pass_await env (syncPlanSpec (st\<lparr>st_tasks := block_pending (st_tasks st)\<rparr>)))
      else (None, st))"

text \<open>The measure that every round of the main loop lowers.\<close>

definition unqueued :: "sched_state \<Rightarrow> nat" where
  "unqueued st =
     length (filter (\<lambda>k. task_status (st_tasks st ! k) = TaskPending \<and> k \<notin> set (readyQueue st))
               [0..<length (st_tasks st)])"

definition work_left :: "sched_state \<Rightarrow> nat" where
  "work_left st = 3 * unqueued st + 2 * length (readyQueue st) + length (inFlight st)"


lemma length_filter_mono:
  "(\<And>x. x \<in> set xs \<Longrightarrow> P x \<Longrightarrow> Q x) \<Longrightarrow> length (filter P xs) \<le> length (filter Q xs)"
  by (induction xs) auto

lemma length_filter_strict:
  assumes "\<And>x. x \<in> set xs \<Longrightarrow> P x \<Longrightarrow> Q x" and "y \<in> set xs" "Q y" "\<not> P y"
  shows "length (filter P xs) < length (filter Q xs)"
proof -
  have "filter P xs = filter P (filter Q xs)"
    using assms(1) by (induction xs) auto
  moreover have "y \<in> set (filter Q xs)" using assms by simp
  then have "length (filter P (filter Q xs)) < length (filter Q xs)"
    using assms(4) by (rule length_filter_less)
  ultimately show ?thesis by simp
qed

lemma length_set_status [simp]: "length (set_status ts k s) = length ts"
  by (simp add: set_status_def)

lemma set_status_other: "j \<noteq> k \<Longrightarrow> set_status ts k s ! j = ts ! j"
  by (simp add: set_status_def)

lemma set_status_same: "k < length ts \<Longrightarrow> task_status (set_status ts k s ! k) = s"
  by (simp add: set_status_def)

lemma set_status_id [simp]: "task_id (set_status ts k s ! j) = task_id (ts ! j)"
  by (cases "j = k") (auto simp: set_status_def)

lemma pending_after_set_status:
  assumes "s \<noteq> TaskPending" "j < length ts" "task_status (set_status ts k s ! j) = TaskPending"
  shows "task_status (ts ! j) = TaskPending \<and> j \<noteq> k"
proof (cases "j = k")
  case True
  then show ?thesis using assms set_status_same [of k ts s] by simp
next
  case False
  then show ?thesis using assms by (simp add: set_status_other)
qed

lemma length_keys_set: "length (keys_set ks i) \<le> Suc (length ks)"
  by (simp add: keys_set_def)

lemma work_left_scheduleTask:
  assumes "readyQueue st = k # q"
  shows "work_left (scheduleTask env k (st\<lparr>readyQueue := q\<rparr>)) < work_left st"
proof -
  let ?st' = "scheduleTask env k (st\<lparr>readyQueue := q\<rparr>)"
  have tasks': "st_tasks ?st' = set_status (st_tasks st) k TaskInProgress"
    and queue': "readyQueue ?st' = q"
    by (simp_all add: scheduleTask_def pass_await_def syncPlanSpec_def Let_def)
  have "length (inFlight ?st') \<le> Suc (length (filter (\<lambda>i. i \<notin> set (settled (env (clock st)))) (inFlight st)))"
    by (simp add: scheduleTask_def pass_await_def syncPlanSpec_def Let_def length_keys_set)
  also have "\<dots> \<le> Suc (length (inFlight st))"
    by simp
  finally have fl: "length (inFlight ?st') \<le> Suc (length (inFlight st))" .
  have "unqueued ?st' \<le> unqueued st"
    unfolding unqueued_def tasks' queue' length_set_status
  proof (rule length_filter_mono)
    fix j
    assume "j \<in> set [0..<length (st_tasks st)]"
      and "task_status (set_status (st_tasks st) k TaskInProgress ! j) = TaskPending \<and> j \<notin> set q"
    then show "task_status (st_tasks st ! j) = TaskPending \<and> j \<notin> set (readyQueue st)"
      using pending_after_set_status [of TaskInProgress j "st_tasks st" k] assms by auto
  qed
  with fl show ?thesis
    by (simp add: work_left_def queue' assms)
qed

lemma work_left_admit: "work_left (admit env cap st) \<le> work_left st"
proof (induction env cap st rule: admit.induct)
  case (1 env cap st)
  show ?case
  proof (cases "\<not> hadFailure st \<and> length (inFlight st) < cap \<and> readyQueue st \<noteq> []")
    case True
    then obtain k q where kq: "readyQueue st = k # q" by (cases "readyQueue st") auto
    have "work_left (admit env cap st) =
        work_left (admit env cap (scheduleTask env (hd (readyQueue st)) (st\<lparr>readyQueue := tl (readyQueue st)\<rparr>)))"
      using True by (subst admit.simps) simp
    also have "\<dots> \<le> work_left (scheduleTask env (hd (readyQueue st)) (st\<lparr>readyQueue := tl (readyQueue st)\<rparr>))"
      using True by (intro "1.IH") simp
    also have "\<dots> < work_left st"
      using work_left_scheduleTask [OF kq, of env] by (simp add: kq)
    finally show ?thesis by simp
  next
    case False
    then show ?thesis by (subst admit.simps) auto
  qed
qed

lemma work_left_pass_await: "work_left (pass_await env st) \<le> work_left st"
  by (simp add: work_left_def unqueued_def pass_await_def)

lemma work_left_syncPlanSpec [simp]: "work_left (syncPlanSpec st) = work_left st"
  by (simp add: work_left_def unqueued_def syncPlanSpec_def)

lemma work_left_push:
  assumes "k < length (st_tasks st)" "task_status (st_tasks st ! k) = TaskPending"
    "k \<notin> set (readyQueue st)"
  shows "work_left (st\<lparr>readyQueue := readyQueue st @ [k]\<rparr>) \<le> work_left st"
proof -
  have "length (filter (\<lambda>j. task_status (st_tasks st ! j) = TaskPending \<and>
                             j \<notin> set (readyQueue st @ [k])) [0..<length (st_tasks st)])
      < length (filter (\<lambda>j. task_status (st_tasks st ! j) = TaskPending \<and>
                             j \<notin> set (readyQueue st)) [0..<length (st_tasks st)])"
    by (rule length_filter_strict [where y = k]) (use assms in auto)
  then have "unqueued (st\<lparr>readyQueue := readyQueue st @ [k]\<rparr>) < unqueued st"
    by (simp add: unqueued_def)
  then show ?thesis
    by (simp add: work_left_def)
qed

lemma work_left_enqueue_ready:
  "\<forall>k \<in> set ks. k < length (st_tasks st) \<Longrightarrow> work_left (enqueue_ready ks st) \<le> work_left st"
proof (induction ks arbitrary: st)
  case Nil
  show ?case by simp
next
  case (Cons k ks)
  define push where "push \<longleftrightarrow> isReady (st_tasks st) (st_tasks st ! k) \<and> k \<notin> set (readyQueue st) \<and>
           task_id (st_tasks st ! k) \<notin> set (inFlight st)"
  define st' where "st' = (if push then st\<lparr>readyQueue := readyQueue st @ [k]\<rparr> else st)"
  have len: "st_tasks st' = st_tasks st" by (simp add: st'_def)
  have "enqueue_ready (k # ks) st = enqueue_ready ks st'"
    by (simp add: st'_def push_def)
  moreover have "work_left (enqueue_ready ks st') \<le> work_left st'"
    using Cons.prems by (intro Cons.IH) (simp add: len)
  moreover have "work_left st' \<le> work_left st"
  proof (cases push)
    case False
    then show ?thesis by (simp add: st'_def)
  next
    case True
    then have "work_left (st\<lparr>readyQueue := readyQueue st @ [k]\<rparr>) \<le> work_left st"
      using Cons.prems by (intro work_left_push) (simp_all add: push_def isReady_def)
    then show ?thesis using True by (simp add: st'_def)
  qed
  ultimately show ?case by simp
qed

lemma work_left_set_tasks:
  assumes "s \<noteq> TaskPending"
  shows "work_left (st\<lparr>st_tasks := set_status (st_tasks st) k s\<rparr>) \<le> work_left st"
proof -
  have "length (filter (\<lambda>j. task_status (set_status (st_tasks st) k s ! j) = TaskPending \<and>
                             j \<notin> set (readyQueue st)) [0..<length (st_tasks st)])
      \<le> length (filter (\<lambda>j. task_status (st_tasks st ! j) = TaskPending \<and>
                             j \<notin> set (readyQueue st)) [0..<length (st_tasks st)])"
  proof (rule length_filter_mono)
    fix j
    assume "j \<in> set [0..<length (st_tasks st)]"
      and "task_status (set_status (st_tasks st) k s ! j) = TaskPending \<and> j \<notin> set (readyQueue st)"
    then show "task_status (st_tasks st ! j) = TaskPending \<and> j \<notin> set (readyQueue st)"
      using pending_after_set_status [OF assms, of j "st_tasks st" k] by simp
  qed
  then show ?thesis by (simp add: work_left_def unqueued_def)
qed

lemma work_left_after_race:
  assumes "inFlight st \<noteq> []"
  shows "work_left (after_race env st) < work_left st"
proof -
  define e where "e = env (clock st)"
  define result_id where "result_id = inFlight st ! (winner e mod length (inFlight st))"
  define st0 where "st0 = st\<lparr>inFlight := removeAll result_id (inFlight st)\<rparr>"
  define st1 where "st1 = pass_await env st0"
  have "result_id \<in> set (inFlight st)"
    using assms by (simp add: result_id_def)
  then have "length (removeAll result_id (inFlight st)) < length (inFlight st)"
    by (simp add: removeAll_filter_not_eq length_filter_less)
  then have "work_left st0 < work_left st"
    by (simp add: st0_def work_left_def unqueued_def)
  then have st1: "work_left st1 < work_left st"
    using work_left_pass_await [of env st0] by (simp add: st1_def)
  show ?thesis
  proof (cases "taskMap (st_tasks st1) result_id")
    case None
    then show ?thesis
      using st1 by (simp add: after_race_def Let_def e_def result_id_def st0_def st1_def)
  next
    case (Some k)
    define st2 where "st2 = (if winner_ok e
                        then st1\<lparr>st_tasks := set_status (st_tasks st1) k TaskCompleted\<rparr>
                        else st1\<lparr>st_tasks := set_status (st_tasks st1) k TaskFailed,
                                 hadFailure := True\<rparr>)"
    define st3 where "st3 = pass_await env (syncPlanSpec st2)"
    have "work_left (st1\<lparr>st_tasks := set_status (st_tasks st1) k TaskFailed, hadFailure := True\<rparr>) =
          work_left (st1\<lparr>st_tasks := set_status (st_tasks st1) k TaskFailed\<rparr>)"
      by (simp add: work_left_def unqueued_def)
    then have "work_left st2 \<le> work_left st1"
      using work_left_set_tasks [of TaskCompleted st1 k] work_left_set_tasks [of TaskFailed st1 k]
      by (simp add: st2_def)
    then have st3: "work_left st3 \<le> work_left st1"
      using work_left_pass_await [of env "syncPlanSpec st2"] by (simp add: st3_def)
    have "work_left (enqueue_ready [0..<length (st_tasks st3)] st3) \<le> work_left st3"
      by (rule work_left_enqueue_ready) simp
    then have "work_left (if \<not> hadFailure st3 then enqueue_ready [0..<length (st_tasks st3)] st3 else st3)
        \<le> work_left st3"
      by simp
    moreover have "after_race env st =
        (if \<not> hadFailure st3 then enqueue_ready [0..<length (st_tasks st3)] st3 else st3)"
      unfolding after_race_def st3_def st2_def
      using Some [unfolded st1_def st0_def result_id_def e_def]
      by (simp add: Let_def st1_def st0_def result_id_def e_def)
    ultimately show ?thesis
      using st3 st1 by simp
  qed
qed

text \<open>
  The main loop \<^verbatim>\<open>while (true)\<close>.  It is left by the abort error, or through
  \<^verbatim>\<open>break\<close> when nothing is in flight after the admission of ready tasks.
\<close>

function run_loop ::
  "(nat \<Rightarrow> await_env) \<Rightarrow> nat \<Rightarrow> sched_state \<Rightarrow> sched_error option \<times> sched_state" where
  "run_loop env cap st =
     (if abort_seen (env (clock st)) then (Some Aborted, st)
      else let st1 = admit env cap st
           in if inFlight st1 = [] then finish env st1
              else run_loop env cap (after_race env st1))"
  by pat_completeness auto
termination
proof (relation "measure (\<lambda>(env, cap, st). work_left st)")
  show "wf (measure (\<lambda>(env, cap, st). work_left st))" by simp
next
  fix env :: "nat \<Rightarrow> await_env" and cap st st1
  assume "st1 = admit env cap st" and "inFlight st1 \<noteq> []"
  then have "work_left (after_race env st1) < work_left st"
    using work_left_after_race [of st1 env] work_left_admit [of env cap st] by simp
  then show "((env, cap, after_race env st1), env, cap, st) \<in> measure (\<lambda>(env, cap, st). work_left st)"
    by simp
qed

declare run_loop.simps [simp del]


text \<open>
  \<^verbatim>\<open>executeTasksWithDependencies\<close>: \<open>setting\<close> is \<^verbatim>\<open>settings?.maxConcurrency\<close>.  The
  result is the error thrown, if any, with the final state of the scheduler.
\<close>

definition executeTasksWithDependencies ::
  "nat option \<Rightarrow> (nat \<Rightarrow> await_env) \<Rightarrow> ParsedTask list \<Rightarrow> sched_error option \<times> sched_state" where
  "executeTasksWithDependencies setting env ts =
     (let marked = mark_missing ts;
          st0 = \<lparr>st_tasks = marked, readyQueue = [], inFlight = [], hadFailure = False,
                 clock = 0, synced = [], started = []\<rparr>;
          st1 = (if has_missing ts then pass_await env (syncPlanSpec st0) else st0);
          st2 = st1\<lparr>readyQueue :=
                    filter (\<lambda>k. isReady (st_tasks st1) (st_tasks st1 ! k)) [0..<length (st_tasks st1)]\<rparr>
      in run_loop env (maxTaskConcurrency setting) st2)"


section \<open>Properties of the scheduler\<close>


lemma taskMap_from_None:
  "taskMap_from ts k i = None \<longleftrightarrow> i \<notin> task_id ` set ts"
proof (induction ts arbitrary: k)
  case Nil
  show ?case by simp
next
  case (Cons t ts)
  show ?case
  proof (cases "taskMap_from ts (Suc k) i")
    case None
    then have "i \<notin> task_id ` set ts" using Cons.IH [of "Suc k"] by simp
    then show ?thesis using None by auto
  next
    case (Some j)
    then have "i \<in> task_id ` set ts" using Cons.IH [of "Suc k"] by simp
    then show ?thesis using Some by simp
  qed
qed

lemma taskMap_from_ids:
  "map task_id ts = map task_id ts' \<Longrightarrow> taskMap_from ts k i = taskMap_from ts' k i"
proof (induction ts arbitrary: ts' k)
  case Nil
  then show ?case by simp
next
  case (Cons t ts)
  then obtain t' us where ts': "ts' = t' # us" "task_id t = task_id t'" "map task_id ts = map task_id us"
    by (cases ts') auto
  show ?case
    using Cons.IH [OF ts'(3), of "Suc k"] by (simp add: ts')
qed

lemma taskMap_from_distinct:
  "distinct (map task_id ts) \<Longrightarrow> m < length ts \<Longrightarrow> taskMap_from ts k (task_id (ts ! m)) = Some (k + m)"
proof (induction ts arbitrary: k m)
  case Nil
  then show ?case by simp
next
  case (Cons t ts)
  show ?case
  proof (cases m)
    case 0
    have "task_id t \<notin> task_id ` set ts" using Cons.prems by simp
    then have "taskMap_from ts (Suc k) (task_id t) = None"
      by (simp add: taskMap_from_None)
    then show ?thesis by (simp add: 0)
  next
    case (Suc m')
    then have "taskMap_from ts (Suc k) (task_id (ts ! m')) = Some (Suc k + m')"
      using Cons.prems by (intro Cons.IH) simp_all
    then show ?thesis by (simp add: Suc)
  qed
qed


lemma taskMap_distinct:
  "distinct (map task_id ts) \<Longrightarrow> m < length ts \<Longrightarrow> taskMap ts (task_id (ts ! m)) = Some m"
  using taskMap_from_distinct [of ts m 0] by (simp add: taskMap_def)

lemma map_task_id_set_status [simp]: "map task_id (set_status ts k s) = map task_id ts"
  by (rule nth_equalityI) simp_all

lemma taskMap_set_status [simp]: "taskMap (set_status ts k s) = taskMap ts"
  by (rule ext) (simp add: taskMap_def taskMap_from_ids [of "set_status ts k s" ts])

lemma deps_of_set_status [simp]: "deps_of (set_status ts k s ! j) = deps_of (ts ! j)"
  by (cases "j = k") (auto simp: set_status_def deps_of_def)

text \<open>A status change of a task that is not completed keeps every ready task but it ready.\<close>

lemma dep_completed_set_status:
  assumes "dep_completed ts d" "task_status (ts ! k) \<noteq> TaskCompleted"
  shows "dep_completed (set_status ts k s) d"
proof -
  from assms(1) obtain j where j: "taskMap ts d = Some j" "task_status (ts ! j) = TaskCompleted"
    by (auto simp: dep_completed_def split: option.splits)
  with assms(2) have "j \<noteq> k" by auto
  then show ?thesis
    using j by (simp add: dep_completed_def set_status_other)
qed

lemma isReady_set_status:
  assumes "isReady ts (ts ! j)" "j \<noteq> k" "task_status (ts ! k) \<noteq> TaskCompleted"
  shows "isReady (set_status ts k s) (set_status ts k s ! j)"
  using assms dep_completed_set_status [of ts _ k s]
  by (auto simp: isReady_def set_status_other list_all_iff)

text \<open>
  The record of a call of \<^verbatim>\<open>scheduleTask\<close> is in order when the task was ready at the
  time: it was pending, and each of its dependencies named a completed task.
\<close>

definition start_ok :: "nat \<times> ParsedTask list \<times> string list \<Rightarrow> bool" where
  "start_ok r = (case r of (k, before, fl) \<Rightarrow> k < length before \<and> isReady before (before ! k))"

text \<open>What holds of the scheduler's variables at every point of the loop, for distinct ids.\<close>

definition sched_inv :: "sched_state \<Rightarrow> bool" where
  "sched_inv st =
     (distinct (map task_id (st_tasks st)) \<and>
      distinct (readyQueue st) \<and>
      (\<forall>k \<in> set (readyQueue st). k < length (st_tasks st) \<and> isReady (st_tasks st) (st_tasks st ! k)) \<and>
      (\<forall>i \<in> set (inFlight st). \<exists>k < length (st_tasks st).
          task_id (st_tasks st ! k) = i \<and> task_status (st_tasks st ! k) = TaskInProgress) \<and>
      (\<forall>r \<in> set (started st). start_ok r))"

lemma sched_inv_pass_await: "sched_inv st \<Longrightarrow> sched_inv (pass_await env st)"
  by (simp add: sched_inv_def pass_await_def)

lemma sched_inv_syncPlanSpec: "sched_inv st \<Longrightarrow> sched_inv (syncPlanSpec st)"
  by (simp add: sched_inv_def syncPlanSpec_def)


lemma sched_inv_set_status:
  assumes inv: "sched_inv st"
    and k: "k < length (st_tasks st)" "task_status (st_tasks st ! k) \<noteq> TaskCompleted"
    and q: "k \<notin> set (readyQueue st)"
    and fl: "s = TaskInProgress \<or> task_id (st_tasks st ! k) \<notin> set (inFlight st)"
  shows "sched_inv (st\<lparr>st_tasks := set_status (st_tasks st) k s\<rparr>)"
proof -
  let ?ts = "st_tasks st" and ?ts' = "set_status (st_tasks st) k s"
  have ids: "distinct (map task_id ?ts)" using inv by (simp add: sched_inv_def)
  have ready: "isReady ?ts' (?ts' ! j)" if "j \<in> set (readyQueue st)" for j
  proof -
    from that inv have "isReady ?ts (?ts ! j)" by (simp add: sched_inv_def)
    moreover from that q have "j \<noteq> k" by auto
    ultimately show ?thesis using k(2) by (rule isReady_set_status)
  qed
  have flight: "\<exists>m < length ?ts. task_id (?ts' ! m) = i \<and> task_status (?ts' ! m) = TaskInProgress"
    if "i \<in> set (inFlight st)" for i
  proof -
    from that inv obtain m where m: "m < length ?ts" "task_id (?ts ! m) = i"
      "task_status (?ts ! m) = TaskInProgress"
      by (auto simp: sched_inv_def)
    show ?thesis
    proof (cases "m = k")
      case True
      with m that fl have "s = TaskInProgress" by auto
      then show ?thesis using m True set_status_same [of k ?ts s] by auto
    next
      case False
      then show ?thesis using m by (auto simp: set_status_other)
    qed
  qed
  show ?thesis
    using inv ready flight by (simp add: sched_inv_def)
qed

lemma sched_inv_scheduleTask:
  assumes inv: "sched_inv st" and kq: "readyQueue st = k # q"
  shows "sched_inv (scheduleTask env k (st\<lparr>readyQueue := q\<rparr>))"
proof -
  let ?ts = "st_tasks st"
  have k: "k < length ?ts" "isReady ?ts (?ts ! k)" "k \<notin> set q" "distinct q"
    using inv kq by (auto simp: sched_inv_def)
  then have pend: "task_status (?ts ! k) \<noteq> TaskCompleted"
    by (simp add: isReady_def)
  define st0 where "st0 = st\<lparr>readyQueue := q, started := started st @ [(k, ?ts, inFlight st)]\<rparr>"
  have "sched_inv st0"
    using inv k kq by (auto simp: sched_inv_def st0_def start_ok_def)
  then have "sched_inv (st0\<lparr>st_tasks := set_status (st_tasks st0) k TaskInProgress\<rparr>)"
    using k pend by (intro sched_inv_set_status) (simp_all add: st0_def)
  then have "sched_inv (pass_await env (syncPlanSpec
      (st0\<lparr>st_tasks := set_status (st_tasks st0) k TaskInProgress\<rparr>)))"
    by (intro sched_inv_pass_await sched_inv_syncPlanSpec)
  moreover define st2 where "st2 = pass_await env (syncPlanSpec
      (st0\<lparr>st_tasks := set_status (st_tasks st0) k TaskInProgress\<rparr>))"
  ultimately have inv2: "sched_inv st2" by simp
  have ts2: "st_tasks st2 = set_status ?ts k TaskInProgress"
    by (simp add: st2_def st0_def pass_await_def syncPlanSpec_def)
  have run: "scheduleTask env k (st\<lparr>readyQueue := q\<rparr>) =
      st2\<lparr>inFlight := keys_set (inFlight st2) (task_id (st_tasks st2 ! k))\<rparr>"
    by (simp add: scheduleTask_def Let_def st2_def st0_def pass_await_def syncPlanSpec_def)
  have "\<exists>m < length (st_tasks st2). task_id (st_tasks st2 ! m) = task_id (st_tasks st2 ! k) \<and>
      task_status (st_tasks st2 ! m) = TaskInProgress"
    using k(1) set_status_same [of k ?ts TaskInProgress]
    by (intro exI [of _ k]) (simp add: ts2)
  then show ?thesis
    using inv2 unfolding run by (auto simp: sched_inv_def keys_set_def)
qed

lemma sched_inv_admit: "sched_inv st \<Longrightarrow> sched_inv (admit env cap st)"
proof (induction env cap st rule: admit.induct)
  case (1 env cap st)
  show ?case
  proof (cases "\<not> hadFailure st \<and> length (inFlight st) < cap \<and> readyQueue st \<noteq> []")
    case True
    then obtain k q where kq: "readyQueue st = k # q" by (cases "readyQueue st") auto
    have "sched_inv (scheduleTask env (hd (readyQueue st)) (st\<lparr>readyQueue := tl (readyQueue st)\<rparr>))"
      using sched_inv_scheduleTask [OF "1.prems" kq, of env] by (simp add: kq)
    then have "sched_inv (admit env cap
        (scheduleTask env (hd (readyQueue st)) (st\<lparr>readyQueue := tl (readyQueue st)\<rparr>)))"
      using True by (intro "1.IH") simp_all
    then show ?thesis using True by (subst admit.simps) simp
  next
    case False
    then show ?thesis using "1.prems" by (subst admit.simps) auto
  qed
qed

lemma sched_inv_enqueue_ready:
  "sched_inv st \<Longrightarrow> \<forall>k \<in> set ks. k < length (st_tasks st) \<Longrightarrow> sched_inv (enqueue_ready ks st)"
proof (induction ks arbitrary: st)
  case Nil
  then show ?case by simp
next
  case (Cons k ks)
  define push where "push \<longleftrightarrow> isReady (st_tasks st) (st_tasks st ! k) \<and> k \<notin> set (readyQueue st) \<and>
           task_id (st_tasks st ! k) \<notin> set (inFlight st)"
  define st' where "st' = (if push then st\<lparr>readyQueue := readyQueue st @ [k]\<rparr> else st)"
  have "sched_inv st'"
    using Cons.prems by (auto simp: st'_def push_def sched_inv_def)
  moreover have "st_tasks st' = st_tasks st" by (simp add: st'_def)
  ultimately have "sched_inv (enqueue_ready ks st')"
    using Cons.prems by (intro Cons.IH) simp_all
  then show ?case by (simp add: st'_def push_def)
qed

lemma sched_inv_after_race:
  assumes inv: "sched_inv st" and ne: "inFlight st \<noteq> []"
  shows "sched_inv (after_race env st)"
proof -
  define e where "e = env (clock st)"
  define result_id where "result_id = inFlight st ! (winner e mod length (inFlight st))"
  define st1 where "st1 = pass_await env (st\<lparr>inFlight := removeAll result_id (inFlight st)\<rparr>)"
  have mem: "result_id \<in> set (inFlight st)"
    using ne by (simp add: result_id_def)
  then obtain k where k: "k < length (st_tasks st)" "task_id (st_tasks st ! k) = result_id"
    "task_status (st_tasks st ! k) = TaskInProgress"
    using inv by (auto simp: sched_inv_def)
  have ts1: "st_tasks st1 = st_tasks st" "readyQueue st1 = readyQueue st"
    by (simp_all add: st1_def pass_await_def)
  have inv1: "sched_inv st1"
    unfolding st1_def using inv by (intro sched_inv_pass_await) (auto simp: sched_inv_def)
  have gone: "result_id \<notin> set (inFlight st1)"
    by (simp add: st1_def pass_await_def)
  have tm: "taskMap (st_tasks st1) result_id = Some k"
    using taskMap_distinct [of "st_tasks st" k] inv k by (simp add: ts1 sched_inv_def)
  have notq: "k \<notin> set (readyQueue st1)"
  proof
    assume "k \<in> set (readyQueue st1)"
    then have "isReady (st_tasks st) (st_tasks st ! k)"
      using inv by (simp add: ts1 sched_inv_def)
    then show False using k(3) by (simp add: isReady_def)
  qed
  have upd: "sched_inv (st1\<lparr>st_tasks := set_status (st_tasks st1) k s\<rparr>)" for s
    using inv1 k notq gone by (intro sched_inv_set_status) (simp_all add: ts1)
  define st2 where "st2 = (if winner_ok e
                        then st1\<lparr>st_tasks := set_status (st_tasks st1) k TaskCompleted\<rparr>
                        else st1\<lparr>st_tasks := set_status (st_tasks st1) k TaskFailed,
                                 hadFailure := True\<rparr>)"
  have "sched_inv (st1\<lparr>st_tasks := set_status (st_tasks st1) k TaskFailed, hadFailure := True\<rparr>)"
    using upd [of TaskFailed] by (simp add: sched_inv_def)
  then have inv2: "sched_inv st2"
    using upd [of TaskCompleted] by (simp add: st2_def)
  define st3 where "st3 = pass_await env (syncPlanSpec st2)"
  have inv3: "sched_inv st3"
    unfolding st3_def using inv2 by (intro sched_inv_pass_await sched_inv_syncPlanSpec)
  have "sched_inv (enqueue_ready [0..<length (st_tasks st3)] st3)"
    using inv3 by (rule sched_inv_enqueue_ready) simp
  moreover have "after_race env st =
        (if \<not> hadFailure st3 then enqueue_ready [0..<length (st_tasks st3)] st3 else st3)"
    unfolding after_race_def st3_def st2_def
    using tm [unfolded st1_def result_id_def e_def]
    by (simp add: Let_def st1_def result_id_def e_def)
  ultimately show ?thesis using inv3 by simp
qed

lemma started_finish [simp]: "started (snd (finish env st)) = started st"
  by (simp add: finish_def pass_await_def syncPlanSpec_def)

lemma run_loop_unfold:
  "abort_seen (env (clock st)) \<Longrightarrow> run_loop env cap st = (Some Aborted, st)"
  "\<not> abort_seen (env (clock st)) \<Longrightarrow> inFlight (admit env cap st) = [] \<Longrightarrow>
     run_loop env cap st = finish env (admit env cap st)"
  "\<not> abort_seen (env (clock st)) \<Longrightarrow> inFlight (admit env cap st) \<noteq> [] \<Longrightarrow>
     run_loop env cap st = run_loop env cap (after_race env (admit env cap st))"
  by (subst run_loop.simps, simp add: Let_def)+



lemma map_task_id_mark_missing [simp]: "map task_id (mark_missing ts) = map task_id ts"
  by (simp add: mark_missing_def comp_def)

definition initial_sched :: "(nat \<Rightarrow> await_env) \<Rightarrow> ParsedTask list \<Rightarrow> sched_state" where
  "initial_sched env ts =
     (let marked = mark_missing ts;
          st0 = \<lparr>st_tasks = marked, readyQueue = [], inFlight = [], hadFailure = False,
                 clock = 0, synced = [], started = []\<rparr>;
          st1 = (if has_missing ts then pass_await env (syncPlanSpec st0) else st0)
      in st1\<lparr>readyQueue :=
               filter (\<lambda>k. isReady (st_tasks st1) (st_tasks st1 ! k)) [0..<length (st_tasks st1)]\<rparr>)"

lemma executeTasksWithDependencies_run:
  "executeTasksWithDependencies setting env ts =
     run_loop env (maxTaskConcurrency setting) (initial_sched env ts)"
  by (simp add: executeTasksWithDependencies_def initial_sched_def Let_def)

lemma initial_sched_fields:
  "st_tasks (initial_sched env ts) = mark_missing ts"
  "readyQueue (initial_sched env ts) =
     filter (\<lambda>k. isReady (mark_missing ts) (mark_missing ts ! k)) [0..<length ts]"
  "inFlight (initial_sched env ts) = []"
  "hadFailure (initial_sched env ts) = False"
  "started (initial_sched env ts) = []"
  by (simp_all add: initial_sched_def Let_def pass_await_def syncPlanSpec_def mark_missing_def)

lemma initial_sched_inv: "distinct (map task_id ts) \<Longrightarrow> sched_inv (initial_sched env ts)"
  by (simp add: sched_inv_def initial_sched_fields) (simp add: mark_missing_def)

text \<open>The parts of the task array that the scheduler never changes.\<close>

definition plan_of :: "ParsedTask list \<Rightarrow> (string \<times> string list) list" where
  "plan_of ts = map (\<lambda>t. (task_id t, deps_of t)) ts"

lemma plan_of_set_status [simp]: "plan_of (set_status ts k s) = plan_of ts"
  unfolding plan_of_def by (rule nth_equalityI) simp_all

lemma plan_of_mark_missing [simp]: "plan_of (mark_missing ts) = plan_of ts"
  by (simp add: plan_of_def mark_missing_def deps_of_def)




lemma enqueue_ready_fields [simp]:
  "st_tasks (enqueue_ready ks st) = st_tasks st"
  "started (enqueue_ready ks st) = started st"
  "inFlight (enqueue_ready ks st) = inFlight st"
  "hadFailure (enqueue_ready ks st) = hadFailure st"
  "clock (enqueue_ready ks st) = clock st"
  by (induction ks arbitrary: st) simp_all




lemma isReady_deps:
  assumes "isReady ts t" "d \<in> set (deps_of t)"
  shows "\<exists>j. taskMap ts d = Some j \<and> task_status (ts ! j) = TaskCompleted"
  using assms by (auto simp: isReady_def list_all_iff dep_completed_def split: option.splits)


text \<open>A pending task with an id and dependencies, and the three tasks of the example.\<close>

definition plan_task :: "string \<Rightarrow> string list \<Rightarrow> ParsedTask" where
  "plan_task i ds =
     \<lparr>task_id = i, description = ''work'', filePath = None, phase = None,
      dependsOn = (if ds = [] then None else Some ds), complexity = None,
      task_status = TaskPending\<rparr>"


text \<open>
  An environment in which nothing settles while the scheduler is busy, the first promise
  in flight wins every race, every task completes, and nobody aborts.
\<close>

definition calm_env :: "nat \<Rightarrow> await_env" where
  "calm_env n = \<lparr>settled = [], winner = 0, winner_ok = True, abort_seen = False\<rparr>"






section \<open>Dependency cycles\<close>

text \<open>
  The tasks at the positions \<open>ks\<close> are pending, every dependency of each of them names
  some task, and each of them depends on one of them.  The tasks of a dependency cycle
  form such a list.
\<close>

definition cyclic_among :: "nat list \<Rightarrow> ParsedTask list \<Rightarrow> bool" where
  "cyclic_among ks ts =
     (ks \<noteq> [] \<and>
      (\<forall>k \<in> set ks. k < length ts \<and> task_status (ts ! k) = TaskPending \<and>
         (\<forall>d \<in> set (deps_of (ts ! k)). taskMap ts d \<noteq> None) \<and>
         (\<exists>d \<in> set (deps_of (ts ! k)). \<exists>j \<in> set ks. taskMap ts d = Some j)))"

text \<open>What holds of such tasks throughout the run: they stay pending and are never started.\<close>

definition stuck :: "nat list \<Rightarrow> sched_state \<Rightarrow> bool" where
  "stuck ks st =
     (\<forall>k \<in> set ks. k < length (st_tasks st) \<and> task_status (st_tasks st ! k) = TaskPending \<and>
         (\<exists>d \<in> set (deps_of (st_tasks st ! k)). \<exists>j \<in> set ks. taskMap (st_tasks st) d = Some j) \<and>
         (\<forall>r \<in> set (started st). fst r \<noteq> k))"

lemma stuck_not_ready:
  assumes "stuck ks st" "k \<in> set ks"
  shows "\<not> isReady (st_tasks st) (st_tasks st ! k)"
proof
  assume r: "isReady (st_tasks st) (st_tasks st ! k)"
  from assms obtain d j where dj: "d \<in> set (deps_of (st_tasks st ! k))" "j \<in> set ks"
    "taskMap (st_tasks st) d = Some j"
    unfolding stuck_def by blast
  then have "task_status (st_tasks st ! j) = TaskCompleted"
    using isReady_deps [OF r dj(1)] by simp
  moreover have "task_status (st_tasks st ! j) = TaskPending"
    using assms(1) dj(2) unfolding stuck_def by blast
  ultimately show False by simp
qed

lemma stuck_cong:
  "st_tasks st' = st_tasks st \<Longrightarrow> started st' = started st \<Longrightarrow> stuck ks st' = stuck ks st"
  by (simp add: stuck_def)

lemma stuck_set_status:
  assumes "stuck ks st" "k \<notin> set ks"
  shows "stuck ks (st\<lparr>st_tasks := set_status (st_tasks st) k s\<rparr>)"
proof -
  have "set_status (st_tasks st) k s ! j = st_tasks st ! j" if "j \<in> set ks" for j
    using that assms(2) by (intro set_status_other) auto
  then show ?thesis
    using assms(1) by (simp add: stuck_def)
qed

lemma scheduleTask_fields:
  "st_tasks (scheduleTask env k st) = set_status (st_tasks st) k TaskInProgress"
  "started (scheduleTask env k st) = started st @ [(k, st_tasks st, inFlight st)]"
  "hadFailure (scheduleTask env k st) = hadFailure st"
  "clock (scheduleTask env k st) = Suc (clock st)"
  "readyQueue (scheduleTask env k st) = readyQueue st"
  by (simp_all add: scheduleTask_def pass_await_def syncPlanSpec_def Let_def)

lemma stuck_scheduleTask:
  assumes "stuck ks st" "k \<notin> set ks"
  shows "stuck ks (scheduleTask env k st)"
proof -
  have "stuck ks (st\<lparr>st_tasks := set_status (st_tasks st) k TaskInProgress\<rparr>)"
    using assms by (rule stuck_set_status)
  then show ?thesis
    using assms(2) by (auto simp: stuck_def scheduleTask_fields)
qed

lemma stuck_admit: "sched_inv st \<Longrightarrow> stuck ks st \<Longrightarrow> stuck ks (admit env cap st)"
proof (induction env cap st rule: admit.induct)
  case (1 env cap st)
  show ?case
  proof (cases "\<not> hadFailure st \<and> length (inFlight st) < cap \<and> readyQueue st \<noteq> []")
    case True
    then obtain k q where kq: "readyQueue st = k # q" by (cases "readyQueue st") auto
    have "isReady (st_tasks st) (st_tasks st ! k)"
      using "1.prems"(1) kq by (simp add: sched_inv_def)
    then have "k \<notin> set ks"
      using stuck_not_ready [OF "1.prems"(2)] by auto
    moreover have "stuck ks (st\<lparr>readyQueue := q\<rparr>)"
      using "1.prems"(2) by (simp add: stuck_def)
    ultimately have s: "stuck ks (scheduleTask env k (st\<lparr>readyQueue := q\<rparr>))"
      by (intro stuck_scheduleTask)
    have i: "sched_inv (scheduleTask env k (st\<lparr>readyQueue := q\<rparr>))"
      using "1.prems"(1) kq by (rule sched_inv_scheduleTask)
    have "stuck ks (admit env cap
        (scheduleTask env (hd (readyQueue st)) (st\<lparr>readyQueue := tl (readyQueue st)\<rparr>)))"
      using True s i by (intro "1.IH") (simp_all add: kq)
    then show ?thesis using True by (subst admit.simps) simp
  next
    case False
    then show ?thesis using "1.prems" by (subst admit.simps) auto
  qed
qed

lemma admit_fields: "hadFailure (admit env cap st) = hadFailure st"
proof (induction env cap st rule: admit.induct)
  case (1 env cap st)
  show ?case
  proof (cases "\<not> hadFailure st \<and> length (inFlight st) < cap \<and> readyQueue st \<noteq> []")
    case True
    have "hadFailure (admit env cap
        (scheduleTask env (hd (readyQueue st)) (st\<lparr>readyQueue := tl (readyQueue st)\<rparr>))) =
        hadFailure (scheduleTask env (hd (readyQueue st)) (st\<lparr>readyQueue := tl (readyQueue st)\<rparr>))"
      using True by (intro "1.IH") simp
    then show ?thesis using True by (subst admit.simps) (simp add: scheduleTask_fields)
  next
    case False
    then show ?thesis by (subst admit.simps) auto
  qed
qed

lemma after_race_fields:
  "started (after_race env st) = started st"
  "hadFailure (after_race env st) \<Longrightarrow> hadFailure st \<or> \<not> winner_ok (env (clock st))"
  "clock (after_race env st) \<le> clock st + 2"
  by (auto simp: after_race_def pass_await_def syncPlanSpec_def Let_def split: option.splits if_splits)

lemma after_race_tasks:
  assumes inv: "sched_inv st" and ne: "inFlight st \<noteq> []"
  shows "\<exists>k s. k < length (st_tasks st) \<and> task_status (st_tasks st ! k) = TaskInProgress \<and>
           st_tasks (after_race env st) = set_status (st_tasks st) k s"
proof -
  define e where "e = env (clock st)"
  define result_id where "result_id = inFlight st ! (winner e mod length (inFlight st))"
  have "result_id \<in> set (inFlight st)"
    using ne by (simp add: result_id_def)
  then obtain k where k: "k < length (st_tasks st)" "task_id (st_tasks st ! k) = result_id"
    "task_status (st_tasks st ! k) = TaskInProgress"
    using inv by (auto simp: sched_inv_def)
  have tm: "taskMap (st_tasks st) result_id = Some k"
    using taskMap_distinct [of "st_tasks st" k] inv k by (simp add: sched_inv_def)
  have "st_tasks (after_race env st) =
      set_status (st_tasks st) k (if winner_ok e then TaskCompleted else TaskFailed)"
    using tm [unfolded result_id_def e_def]
    by (simp add: after_race_def pass_await_def syncPlanSpec_def Let_def e_def)
  with k show ?thesis by blast
qed

lemma stuck_after_race:
  assumes "sched_inv st" "inFlight st \<noteq> []" "stuck ks st"
  shows "stuck ks (after_race env st)"
proof -
  from after_race_tasks [OF assms(1,2), of env] obtain k s
    where k: "task_status (st_tasks st ! k) = TaskInProgress"
      "st_tasks (after_race env st) = set_status (st_tasks st) k s"
    by blast
  have "k \<notin> set ks"
    using k(1) assms(3) by (auto simp: stuck_def)
  with assms(3) have "stuck ks (st\<lparr>st_tasks := set_status (st_tasks st) k s\<rparr>)"
    by (rule stuck_set_status)
  moreover have "stuck ks (after_race env st) = stuck ks (st\<lparr>st_tasks := set_status (st_tasks st) k s\<rparr>)"
    by (rule stuck_cong) (simp_all add: k(2) after_race_fields)
  ultimately show ?thesis by simp
qed


lemma block_pending_fields:
  "length (block_pending ts) = length ts"
  "k < length ts \<Longrightarrow> task_status (ts ! k) = TaskPending \<Longrightarrow>
     task_status (block_pending ts ! k) = TaskBlocked"
  "t \<in> set (block_pending ts) \<Longrightarrow> task_status t \<noteq> TaskPending"
  by (auto simp: block_pending_def)

lemma finish_pending:
  assumes "t \<in> set (st_tasks st)" "task_status t = TaskPending"
  shows "finish env st =
     (Some (if hadFailure st then TasksFailed else CycleDetected),
      pass_await env (syncPlanSpec (st\<lparr>st_tasks := block_pending (st_tasks st)\<rparr>)))"
proof -
  have "filter (\<lambda>t. task_status t = TaskPending) (st_tasks st) \<noteq> []"
    using assms by (auto simp: filter_empty_conv)
  then show ?thesis by (simp add: finish_def)
qed

text \<open>How a run ends when the tasks at \<open>ks\<close> were stuck.\<close>

definition ends_blocked :: "nat list \<Rightarrow> sched_error option \<times> sched_state \<Rightarrow> bool" where
  "ends_blocked ks r =
     (fst r = Some (if hadFailure (snd r) then TasksFailed else CycleDetected) \<and>
      (\<forall>k \<in> set ks. task_status (st_tasks (snd r) ! k) = TaskBlocked \<and>
                     (\<forall>s \<in> set (started (snd r)). fst s \<noteq> k)) \<and>
      (\<forall>t \<in> set (st_tasks (snd r)). task_status t \<noteq> TaskPending))"

lemma finish_stuck:
  assumes "stuck ks st" "ks \<noteq> []"
  shows "ends_blocked ks (finish env st)"
proof -
  from assms(2) obtain k where k: "k \<in> set ks" by (cases ks) auto
  then have "st_tasks st ! k \<in> set (st_tasks st)" "task_status (st_tasks st ! k) = TaskPending"
    using assms(1) by (auto simp: stuck_def)
  then have f: "finish env st =
     (Some (if hadFailure st then TasksFailed else CycleDetected),
      pass_await env (syncPlanSpec (st\<lparr>st_tasks := block_pending (st_tasks st)\<rparr>)))"
    by (rule finish_pending)
  show ?thesis
    unfolding f ends_blocked_def
    using assms(1)
    by (auto simp: pass_await_def syncPlanSpec_def stuck_def block_pending_fields)
qed

lemma run_loop_stuck:
  "\<forall>n. \<not> abort_seen (env n) \<Longrightarrow> ks \<noteq> [] \<Longrightarrow> sched_inv st \<Longrightarrow> stuck ks st \<Longrightarrow>
     ends_blocked ks (run_loop env cap st)"
proof (induction env cap st rule: run_loop.induct)
  case (1 env cap st)
  have na: "\<not> abort_seen (env (clock st))"
    using "1.prems"(1) by simp
  have inv1: "sched_inv (admit env cap st)"
    using "1.prems"(3) by (rule sched_inv_admit)
  have stuck1: "stuck ks (admit env cap st)"
    using "1.prems"(3,4) by (rule stuck_admit)
  show ?case
  proof (cases "inFlight (admit env cap st) = []")
    case True
    then show ?thesis
      using na finish_stuck [OF stuck1 "1.prems"(2), of env] by (simp add: run_loop_unfold)
  next
    case ne: False
    have "sched_inv (after_race env (admit env cap st))"
      using inv1 ne by (rule sched_inv_after_race)
    moreover have "stuck ks (after_race env (admit env cap st))"
      using inv1 ne stuck1 by (rule stuck_after_race)
    ultimately have "ends_blocked ks (run_loop env cap (after_race env (admit env cap st)))"
      using na ne "1.prems"(1,2) by (intro "1.IH") simp_all
    then show ?thesis
      using na ne by (simp add: run_loop_unfold)
  qed
qed

lemma finish_fields:
  "hadFailure (snd (finish env st)) = hadFailure st"
  "clock (snd (finish env st)) \<le> Suc (clock st)"
  by (simp_all add: finish_def pass_await_def syncPlanSpec_def)

lemma run_loop_no_failure:
  "\<forall>n. winner_ok (env n) \<Longrightarrow> \<not> hadFailure st \<Longrightarrow> \<not> hadFailure (snd (run_loop env cap st))"
proof (induction env cap st rule: run_loop.induct)
  case (1 env cap st)
  have h1: "\<not> hadFailure (admit env cap st)"
    using "1.prems"(2) by (simp add: admit_fields)
  show ?case
  proof (cases "abort_seen (env (clock st))")
    case True
    then show ?thesis using "1.prems"(2) by (simp add: run_loop_unfold)
  next
    case na: False
    show ?thesis
    proof (cases "inFlight (admit env cap st) = []")
      case True
      then show ?thesis
        using na h1 by (simp add: run_loop_unfold finish_fields)
    next
      case ne: False
      have "\<not> hadFailure (after_race env (admit env cap st))"
        using after_race_fields(2) [of env "admit env cap st"] h1 "1.prems"(1) by auto
      then have "\<not> hadFailure (snd (run_loop env cap (after_race env (admit env cap st))))"
        using na ne "1.prems"(1) by (intro "1.IH") simp_all
      then show ?thesis
        using na ne by (simp add: run_loop_unfold)
    qed
  qed
qed

text \<open>The number of \<^verbatim>\<open>await\<close>s that a run passes is bounded.\<close>

lemma clock_admit:
  "clock (admit env cap st) + 2 * work_left (admit env cap st) \<le> clock st + 2 * work_left st"
proof (induction env cap st rule: admit.induct)
  case (1 env cap st)
  show ?case
  proof (cases "\<not> hadFailure st \<and> length (inFlight st) < cap \<and> readyQueue st \<noteq> []")
    case True
    then obtain k q where kq: "readyQueue st = k # q" by (cases "readyQueue st") auto
    define st' where "st' = scheduleTask env k (st\<lparr>readyQueue := q\<rparr>)"
    have a: "admit env cap st = admit env cap st'"
      using True by (subst admit.simps) (simp add: kq st'_def)
    have "clock (admit env cap st') + 2 * work_left (admit env cap st') \<le>
        clock st' + 2 * work_left st'"
      using True "1.IH" by (simp add: kq st'_def)
    moreover have "work_left st' < work_left st"
      unfolding st'_def using kq by (rule work_left_scheduleTask)
    moreover have "clock st' = Suc (clock st)"
      by (simp add: st'_def scheduleTask_fields)
    ultimately show ?thesis
      unfolding a by linarith
  next
    case False
    then show ?thesis by (subst (1 2) admit.simps) auto
  qed
qed

lemma run_loop_clock:
  "clock (snd (run_loop env cap st)) \<le> clock st + 2 * work_left st + 1"
proof (induction env cap st rule: run_loop.induct)
  case (1 env cap st)
  define st1 where "st1 = admit env cap st"
  have b1: "clock st1 + 2 * work_left st1 \<le> clock st + 2 * work_left st"
    unfolding st1_def by (rule clock_admit)
  show ?case
  proof (cases "abort_seen (env (clock st))")
    case True
    then show ?thesis by (simp add: run_loop_unfold)
  next
    case na: False
    show ?thesis
    proof (cases "inFlight st1 = []")
      case True
      then have "run_loop env cap st = finish env st1"
        using na by (simp add: run_loop_unfold st1_def)
      then show ?thesis
        using finish_fields(2) [of env st1] b1 by simp
    next
      case ne: False
      have r: "run_loop env cap st = run_loop env cap (after_race env st1)"
        using na ne by (simp add: run_loop_unfold st1_def)
      have "clock (snd (run_loop env cap (after_race env st1))) \<le>
          clock (after_race env st1) + 2 * work_left (after_race env st1) + 1"
        using na ne by (intro "1.IH") (simp_all add: st1_def)
      moreover have "work_left (after_race env st1) < work_left st1"
        using ne by (rule work_left_after_race)
      moreover have "clock (after_race env st1) \<le> clock st1 + 2"
        by (rule after_race_fields)
      ultimately show ?thesis
        unfolding r using b1 by linarith
    qed
  qed
qed

lemma filter_disjoint_length:
  "(\<And>x. x \<in> set xs \<Longrightarrow> P x \<Longrightarrow> \<not> Q x) \<Longrightarrow>
     length (filter P xs) + length (filter Q xs) \<le> length xs"
  by (induction xs) auto

lemma work_left_initial: "work_left (initial_sched env ts) \<le> 3 * length ts"
proof -
  let ?st = "initial_sched env ts"
  let ?m = "mark_missing ts"
  have len: "length ?m = length ts" by (simp add: mark_missing_def)
  have "length (filter (\<lambda>k. task_status (?m ! k) = TaskPending \<and> k \<notin> set (readyQueue ?st)) [0..<length ts]) +
        length (filter (\<lambda>k. isReady ?m (?m ! k)) [0..<length ts]) \<le> length [0..<length ts]"
    by (rule filter_disjoint_length) (simp add: initial_sched_fields)
  then have "unqueued ?st + length (readyQueue ?st) \<le> length ts"
    by (simp add: unqueued_def initial_sched_fields len)
  then show ?thesis
    by (simp add: work_left_def initial_sched_fields)
qed

lemma clock_initial: "clock (initial_sched env ts) \<le> 1"
  by (simp add: initial_sched_def Let_def pass_await_def syncPlanSpec_def)

lemma executeTasksWithDependencies_clock:
  "clock (snd (executeTasksWithDependencies setting env ts)) \<le> 6 * length ts + 2"
  using run_loop_clock [of env "maxTaskConcurrency setting" "initial_sched env ts"]
    work_left_initial [of env ts] clock_initial [of env ts]
  by (simp add: executeTasksWithDependencies_run)

lemma taskMap_mark_missing [simp]: "taskMap (mark_missing ts) = taskMap ts"
  by (rule ext) (simp add: taskMap_def taskMap_from_ids [of "mark_missing ts" ts])

lemma cyclic_among_stuck:
  assumes "cyclic_among ks ts"
  shows "stuck ks (initial_sched env ts)"
proof -
  have "mark_missing ts ! k = ts ! k" if "k \<in> set ks" for k
  proof -
    from that assms have k: "k < length ts" "\<forall>d \<in> set (deps_of (ts ! k)). taskMap ts d \<noteq> None"
      by (auto simp: cyclic_among_def)
    then have "filter (\<lambda>d. taskMap ts d = None) (deps_of (ts ! k)) = []"
      by (simp add: filter_empty_conv)
    then show ?thesis using k(1) by (simp add: mark_missing_def)
  qed
  moreover have "length (mark_missing ts) = length ts"
    by (simp add: mark_missing_def)
  ultimately show ?thesis
    using assms by (simp add: stuck_def cyclic_among_def initial_sched_fields)
qed

definition cycle_tasks :: "ParsedTask list" where
  "cycle_tasks = [plan_task ''A'' [''B''], plan_task ''B'' [''A'']]"

lemma initial_cycle_tasks:
  "initial_sched env cycle_tasks =
     \<lparr>st_tasks = cycle_tasks, readyQueue = [], inFlight = [], hadFailure = False,
      clock = 0, synced = [], started = []\<rparr>"
  by code_simp

lemma admit_idle: "readyQueue st = [] \<Longrightarrow> admit env cap st = st"
  by (subst admit.simps) simp

lemma run_loop_idle:
  assumes "\<not> abort_seen (env (clock st))" "inFlight st = []" "readyQueue st = []"
    "t \<in> set (st_tasks st)" "task_status t = TaskPending"
  shows "run_loop env cap st =
     (Some (if hadFailure st then TasksFailed else CycleDetected),
      pass_await env (syncPlanSpec (st\<lparr>st_tasks := block_pending (st_tasks st)\<rparr>)))"
  using assms(1,2) finish_pending [OF assms(4,5), of env]
  by (simp add: run_loop_unfold admit_idle [OF assms(3)])

lemma cycle_tasks_run:
  assumes "\<not> abort_seen (env 0)"
  shows "fst (executeTasksWithDependencies setting env cycle_tasks) = Some CycleDetected"
    "map task_status (st_tasks (snd (executeTasksWithDependencies setting env cycle_tasks))) =
       [TaskBlocked, TaskBlocked]"
    "started (snd (executeTasksWithDependencies setting env cycle_tasks)) = []"
proof -
  define st where "st = initial_sched env cycle_tasks"
  have f: "st_tasks st = cycle_tasks" "readyQueue st = []" "inFlight st = []" "\<not> hadFailure st"
    "clock st = 0" "started st = []"
    by (simp_all add: st_def initial_cycle_tasks)
  have "plan_task ''A'' [''B''] \<in> set (st_tasks st)"
    "task_status (plan_task ''A'' [''B'']) = TaskPending"
    by (simp_all add: f cycle_tasks_def plan_task_def)
  then have r: "run_loop env (maxTaskConcurrency setting) st =
     (Some (if hadFailure st then TasksFailed else CycleDetected),
      pass_await env (syncPlanSpec (st\<lparr>st_tasks := block_pending (st_tasks st)\<rparr>)))"
    using assms f by (intro run_loop_idle) simp_all
  show "fst (executeTasksWithDependencies setting env cycle_tasks) = Some CycleDetected"
    "map task_status (st_tasks (snd (executeTasksWithDependencies setting env cycle_tasks))) =
       [TaskBlocked, TaskBlocked]"
    "started (snd (executeTasksWithDependencies setting env cycle_tasks)) = []"
    unfolding executeTasksWithDependencies_run st_def [symmetric] r
    by (simp_all add: f pass_await_def syncPlanSpec_def block_pending_def cycle_tasks_def plan_task_def)
qed


text \<open>
  A plan in which B and C depend on each other and A on nothing, and an environment in
  which every task that is run fails.
\<close>

definition knot_tasks :: "ParsedTask list" where
  "knot_tasks = [plan_task ''A'' [], plan_task ''B'' [''C''], plan_task ''C'' [''B'']]"

definition failing_env :: "nat \<Rightarrow> await_env" where
  "failing_env n = \<lparr>settled = [], winner = 0, winner_ok = False, abort_seen = False\<rparr>"

text \<open>
  Claim C3, as the code has it.  Every run ends, after at most \<open>6 * length ts + 2\<close>
  \<^verbatim>\<open>await\<close>s.  When the loop finds nothing in flight and nothing ready while pending tasks
  remain, and the run is not aborted, it ends with every pending task blocked, and the
  error is the cycle error if no task has failed and the task-failure error otherwise.
  For a task list with distinct ids that contains a dependency cycle among pending tasks
  and a run that is never aborted: the tasks of the cycle are never started and end
  blocked, no task is left pending, and the error is the cycle error when no task has
  failed (in particular when every task that runs completes) and the task-failure error
  otherwise.  For A depending on B and B on A the run ends with the cycle error and both
  tasks blocked, whenever it is not aborted at the first check.
\<close>

theorem cycle_ends_blocked:
  "clock (snd (executeTasksWithDependencies setting env ts)) \<le> 6 * length ts + 2 \<and>
   (\<not> abort_seen (env (clock st)) \<and> inFlight st = [] \<and> readyQueue st = [] \<and>
    (\<exists>t \<in> set (st_tasks st). task_status t = TaskPending) \<longrightarrow>
      fst (run_loop env cap st) = Some (if hadFailure st then TasksFailed else CycleDetected) \<and>
      st_tasks (snd (run_loop env cap st)) = block_pending (st_tasks st)) \<and>
   (distinct (map task_id ts) \<and> cyclic_among ks ts \<and> (\<forall>n. \<not> abort_seen (env n)) \<longrightarrow>
      ends_blocked ks (executeTasksWithDependencies setting env ts) \<and>
      ((\<forall>n. winner_ok (env n)) \<longrightarrow>
         fst (executeTasksWithDependencies setting env ts) = Some CycleDetected)) \<and>
   (\<not> abort_seen (env 0) \<longrightarrow>
      fst (executeTasksWithDependencies setting env cycle_tasks) = Some CycleDetected \<and>
      map task_status (st_tasks (snd (executeTasksWithDependencies setting env cycle_tasks))) =
        [TaskBlocked, TaskBlocked] \<and>
      started (snd (executeTasksWithDependencies setting env cycle_tasks)) = [])"
proof (intro conjI impI)
  show "clock (snd (executeTasksWithDependencies setting env ts)) \<le> 6 * length ts + 2"
    by (rule executeTasksWithDependencies_clock)
next
  assume a: "\<not> abort_seen (env (clock st)) \<and> inFlight st = [] \<and> readyQueue st = [] \<and>
    (\<exists>t \<in> set (st_tasks st). task_status t = TaskPending)"
  then obtain t where t: "t \<in> set (st_tasks st)" "task_status t = TaskPending" by blast
  have r: "run_loop env cap st =
     (Some (if hadFailure st then TasksFailed else CycleDetected),
      pass_await env (syncPlanSpec (st\<lparr>st_tasks := block_pending (st_tasks st)\<rparr>)))"
    using a t by (intro run_loop_idle) simp_all
  show "fst (run_loop env cap st) = Some (if hadFailure st then TasksFailed else CycleDetected)"
    by (simp add: r)
  show "st_tasks (snd (run_loop env cap st)) = block_pending (st_tasks st)"
    by (simp add: r pass_await_def syncPlanSpec_def)
next
  assume a: "distinct (map task_id ts) \<and> cyclic_among ks ts \<and> (\<forall>n. \<not> abort_seen (env n))"
  then have ne: "ks \<noteq> []" by (simp add: cyclic_among_def)
  have inv: "sched_inv (initial_sched env ts)"
    using a by (intro initial_sched_inv) simp
  have st: "stuck ks (initial_sched env ts)"
    using a by (intro cyclic_among_stuck) simp
  show e: "ends_blocked ks (executeTasksWithDependencies setting env ts)"
    unfolding executeTasksWithDependencies_run
    using a ne inv st by (intro run_loop_stuck) simp_all
  assume ok: "\<forall>n. winner_ok (env n)"
  have "\<not> hadFailure (snd (run_loop env (maxTaskConcurrency setting) (initial_sched env ts)))"
    using ok by (rule run_loop_no_failure) (simp add: initial_sched_fields)
  then show "fst (executeTasksWithDependencies setting env ts) = Some CycleDetected"
    using e by (simp add: ends_blocked_def executeTasksWithDependencies_run)
next
  assume a: "\<not> abort_seen (env 0)"
  show "fst (executeTasksWithDependencies setting env cycle_tasks) = Some CycleDetected"
    "map task_status (st_tasks (snd (executeTasksWithDependencies setting env cycle_tasks))) =
        [TaskBlocked, TaskBlocked]"
    "started (snd (executeTasksWithDependencies setting env cycle_tasks)) = []"
    using a by (rule cycle_tasks_run)+
qed

lemma knot_tasks_cyclic: "cyclic_among [1, 2] knot_tasks \<and> distinct (map task_id knot_tasks)"
  by code_simp

lemma knot_calm_run:
  "map task_status (st_tasks (snd (executeTasksWithDependencies (Some 2) calm_env knot_tasks))) =
     [TaskCompleted, TaskBlocked, TaskBlocked] \<and>
   map fst (started (snd (executeTasksWithDependencies (Some 2) calm_env knot_tasks))) = [0]"
  by code_simp

lemma cycle_idle:
  "inFlight (initial_sched calm_env cycle_tasks) = [] \<and>
   readyQueue (initial_sched calm_env cycle_tasks) = [] \<and>
   \<not> hadFailure (initial_sched calm_env cycle_tasks) \<and>
   list_ex (\<lambda>t. task_status t = TaskPending) (st_tasks (initial_sched calm_env cycle_tasks))"
  by code_simp

theorem cycle_ends_blocked_witness:
  "cyclic_among [1, 2] knot_tasks \<and> distinct (map task_id knot_tasks) \<and>
   fst (executeTasksWithDependencies (Some 2) calm_env knot_tasks) = Some CycleDetected \<and>
   map task_status (st_tasks (snd (executeTasksWithDependencies (Some 2) calm_env knot_tasks))) =
     [TaskCompleted, TaskBlocked, TaskBlocked] \<and>
   map fst (started (snd (executeTasksWithDependencies (Some 2) calm_env knot_tasks))) = [0] \<and>
   clock (snd (executeTasksWithDependencies (Some 2) calm_env knot_tasks)) \<le> 20 \<and>
   fst (run_loop calm_env 2 (initial_sched calm_env cycle_tasks)) = Some CycleDetected \<and>
   fst (executeTasksWithDependencies (Some 2) calm_env cycle_tasks) = Some CycleDetected"
proof -
  note t = cycle_ends_blocked [of "Some 2" calm_env knot_tasks "initial_sched calm_env cycle_tasks"
      2 "[1, 2]"]
  have calm: "\<forall>n. \<not> abort_seen (calm_env n)" "\<forall>n. winner_ok (calm_env n)"
    by (simp_all add: calm_env_def)
  have c: "cyclic_among [1, 2] knot_tasks" "distinct (map task_id knot_tasks)"
    using knot_tasks_cyclic by simp_all
  have "fst (executeTasksWithDependencies (Some 2) calm_env knot_tasks) = Some CycleDetected"
    using t c calm by blast
  moreover have "clock (snd (executeTasksWithDependencies (Some 2) calm_env knot_tasks)) \<le> 20"
    using t by (simp add: knot_tasks_def)
  moreover have "\<exists>t \<in> set (st_tasks (initial_sched calm_env cycle_tasks)). task_status t = TaskPending"
    using cycle_idle by (simp add: list_ex_iff)
  then have "fst (run_loop calm_env 2 (initial_sched calm_env cycle_tasks)) = Some CycleDetected"
    using t cycle_idle calm(1) by simp
  moreover have "fst (executeTasksWithDependencies (Some 2) calm_env cycle_tasks) = Some CycleDetected"
    using t calm(1) by blast
  ultimately show ?thesis
    using c knot_calm_run by simp
qed

text \<open>
  The claim as stated fails on the plan above when A fails: the loop ends with nothing
  in flight, nothing ready and the cycle B, C still pending; B and C end blocked, but
  the error raised is the task-failure error, not the cycle error.
\<close>

theorem cycle_reported_as_task_failure:
  "cyclic_among [1, 2] knot_tasks \<and>
   fst (executeTasksWithDependencies (Some 2) failing_env knot_tasks) = Some TasksFailed \<and>
   fst (executeTasksWithDependencies (Some 2) failing_env knot_tasks) \<noteq> Some CycleDetected \<and>
   map task_status (st_tasks (snd (executeTasksWithDependencies (Some 2) failing_env knot_tasks))) =
     [TaskFailed, TaskBlocked, TaskBlocked] \<and>
   inFlight (snd (executeTasksWithDependencies (Some 2) failing_env knot_tasks)) = [] \<and>
   readyQueue (snd (executeTasksWithDependencies (Some 2) failing_env knot_tasks)) = []"
  by code_simp

end
